theory Spec2Isabelle
  imports Main "HOL-Library.Sublist" "HOL-Library.Multiset"
begin

section \<open>JavaScript strings and values\<close>

text \<open>
  A JavaScript string is a sequence of UTF-16 code units and \<open>length\<close> counts code
  units. A code unit is modelled by its number; a source literal is written
  \<open>js ''...''\<close>. A runtime value that is not a string (\<open>null\<close>, \<open>undefined\<close>, a number,
  an object) is \<open>JOther\<close>: the functions below only ask whether their argument is a string.
\<close>

type_synonym code_unit = nat
type_synonym jsstring = "code_unit list"

abbreviation (input) js :: "string \<Rightarrow> jsstring" where
  "js s \<equiv> map of_char s"

datatype js_value = JString jsstring | JOther

section \<open>Validator.sanitizeString (src/utils/rate-limiter.ts, lines 370-389)\<close>






section \<open>Sanitizer output alphabet\<close>











section \<open>RateLimiter (src/utils/rate-limiter.ts, lines 1-156)\<close>

text \<open>
  Times are integers, in milliseconds; \<open>Date.now()\<close> is the field \<open>clock\<close> of the
  environment. The configuration numbers are taken as integers too.
\<close>

record RateLimiterConfig =
  maxRequests :: int
  windowMs :: int
  maxRetries :: int
  retryDelayMs :: int

text \<open>The constructor: \<open>maxRetries ?? 3\<close>, \<open>retryDelayMs ?? 1000\<close>.\<close>

definition mkConfig :: "int \<Rightarrow> int \<Rightarrow> int option \<Rightarrow> int option \<Rightarrow> RateLimiterConfig" where
  "mkConfig m w retries delayMs =
     \<lparr>maxRequests = m, windowMs = w,
      maxRetries = (case retries of None \<Rightarrow> 3 | Some n \<Rightarrow> n),
      retryDelayMs = (case delayMs of None \<Rightarrow> 1000 | Some d \<Rightarrow> d)\<rparr>"

text \<open>The two mutable fields of the class; \<open>cleanupInterval\<close> is its constant.\<close>

record RateLimiter =
  requests :: "int list"
  lastCleanup :: int

definition newRateLimiter :: RateLimiter where
  "newRateLimiter = \<lparr>requests = [], lastCleanup = 0\<rparr>"

definition cleanupInterval :: int where
  "cleanupInterval = 10000"

text \<open>
  The environment of a call. \<open>clock\<close> is what \<open>Date.now()\<close> returns; it never goes
  back. A timer set for \<open>ms\<close> milliseconds fires after at least \<open>ms\<close>: \<open>late\<close> lists
  by how much each coming timer is late (on time once the list is exhausted).
  \<open>log\<close> records the effects in order, and no branch reads it: \<open>Waited ms\<close> and
  \<open>BackedOff ms\<close> are the calls of \<open>this.delay(ms)\<close> in checkLimit and in execute,
  \<open>Registered t\<close> is \<open>this.requests.push(t)\<close>, \<open>Called k\<close> is the call of \<open>fn()\<close> made
  with retryCount \<open>k\<close>.
\<close>

datatype event = Waited int | Registered int | Called nat | BackedOff int

record env =
  clock :: int
  late :: "nat list"
  log :: "event list"

definition delay :: "(int \<Rightarrow> event) \<Rightarrow> int \<Rightarrow> env \<Rightarrow> env" where
  "delay site ms e =
     e\<lparr>clock := clock e + max ms 0 + (case late e of [] \<Rightarrow> 0 | d # _ \<Rightarrow> int d),
       late := tl (late e),
       log := log e @ [site ms]\<rparr>"

text \<open>
  cleanupOldRequests: the \<open>for\<close> loop counts the leading timestamps below the
  cutoff, and \<open>splice(0, removeCount)\<close> removes them.
\<close>

fun removeCount :: "int \<Rightarrow> int list \<Rightarrow> nat" where
  "removeCount cutoff [] = 0"
| "removeCount cutoff (t # ts) = (if t < cutoff then Suc (removeCount cutoff ts) else 0)"

definition cleanupOldRequests :: "RateLimiterConfig \<Rightarrow> int \<Rightarrow> RateLimiter \<Rightarrow> RateLimiter" where
  "cleanupOldRequests cfg now r =
     (let cutoff = now - windowMs cfg;
          n = removeCount cutoff (requests r)
      in if n > 0 then r\<lparr>requests := drop n (requests r)\<rparr> else r)"

text \<open>The \<open>while\<close> loop of checkLimit: \<open>shift()\<close> while the head is windowMs old.\<close>

fun quickCleanup :: "RateLimiterConfig \<Rightarrow> int \<Rightarrow> int list \<Rightarrow> int list" where
  "quickCleanup cfg now [] = []"
| "quickCleanup cfg now (t # ts) =
     (if now - t \<ge> windowMs cfg then quickCleanup cfg now ts else t # ts)"

text \<open>The first \<open>if\<close> of checkLimit: the full cleanup every 10 s, else the quick one.\<close>

definition purge :: "RateLimiterConfig \<Rightarrow> int \<Rightarrow> RateLimiter \<Rightarrow> RateLimiter" where
  "purge cfg now r =
     (if now - lastCleanup r > cleanupInterval
      then (cleanupOldRequests cfg now r)\<lparr>lastCleanup := now\<rparr>
      else r\<lparr>requests := quickCleanup cfg now (requests r)\<rparr>)"

text \<open>
  The second \<open>if\<close>: \<open>Some w\<close> when the call must wait \<open>w > 0\<close>. On an empty buffer
  \<open>this.requests[0]\<close> is \<open>undefined\<close>, the wait time is NaN, and \<open>NaN > 0\<close> is false.
\<close>

definition waitTime :: "RateLimiterConfig \<Rightarrow> int \<Rightarrow> RateLimiter \<Rightarrow> int option" where
  "waitTime cfg now r =
     (if int (length (requests r)) \<ge> maxRequests cfg then
        (case requests r of
           [] \<Rightarrow> None
         | oldestRequest # _ \<Rightarrow>
             let w = oldestRequest + windowMs cfg - now
             in if w > 0 then Some w else None)
      else None)"

subsection \<open>Termination of checkLimit\<close>

text \<open>
  Each wait ends no earlier than the expiry of the oldest timestamp, so the number of
  timestamps that have not expired decreases from one round to the next.
\<close>

lemma length_filter_drop_le: "length (filter P (drop n xs)) \<le> length (filter P xs)"
proof -
  have "length (filter P xs) = length (filter P (take n xs)) + length (filter P (drop n xs))"
    by (metis append_take_drop_id filter_append length_append)
  then show ?thesis by simp
qed

lemma quickCleanup_drop: "\<exists>n. quickCleanup cfg now xs = drop n xs"
proof (induction xs)
  case Nil
  then show ?case by simp
next
  case (Cons t ts)
  show ?case
  proof (cases "now - t \<ge> windowMs cfg")
    case True
    from Cons obtain n where "quickCleanup cfg now ts = drop n ts" by blast
    with True have "quickCleanup cfg now (t # ts) = drop (Suc n) (t # ts)" by simp
    then show ?thesis by blast
  next
    case False
    then have "quickCleanup cfg now (t # ts) = drop 0 (t # ts)" by simp
    then show ?thesis by blast
  qed
qed

lemma purge_drop: "\<exists>n. requests (purge cfg now r) = drop n (requests r)"
proof (cases "now - lastCleanup r > cleanupInterval")
  case True
  show ?thesis
  proof (cases "removeCount (now - windowMs cfg) (requests r) > 0")
    case True
    with \<open>now - lastCleanup r > cleanupInterval\<close> show ?thesis
      by (auto simp: purge_def cleanupOldRequests_def Let_def)
  next
    case False
    with \<open>now - lastCleanup r > cleanupInterval\<close>
    have "requests (purge cfg now r) = drop 0 (requests r)"
      by (simp add: purge_def cleanupOldRequests_def Let_def)
    then show ?thesis by blast
  qed
next
  case False
  then show ?thesis using quickCleanup_drop [of cfg now "requests r"]
    by (simp add: purge_def)
qed

lemma waitTime_Some:
  assumes "waitTime cfg now r = Some w"
  shows "w > 0 \<and> (\<exists>t ts. requests r = t # ts \<and> w = t + windowMs cfg - now)
         \<and> int (length (requests r)) \<ge> maxRequests cfg"
  using assms by (auto simp: waitTime_def Let_def split: if_splits list.splits)

lemma delay_clock_ge: "clock (delay site ms e) \<ge> clock e + ms"
  by (cases "late e") (simp_all add: delay_def)

definition pending :: "RateLimiterConfig \<Rightarrow> int \<Rightarrow> int list \<Rightarrow> nat" where
  "pending cfg now ts = length (filter (\<lambda>t. t + windowMs cfg > now) ts)"

lemma pending_decreases:
  assumes "waitTime cfg (clock e) (purge cfg (clock e) r) = Some w"
  shows "pending cfg (clock (delay site w e)) (requests (purge cfg (clock e) r))
         < pending cfg (clock e) (requests r)"
proof -
  let ?now = "clock e" and ?now' = "clock (delay site w e)"
  from waitTime_Some [OF assms] obtain t ts where
    w: "w > 0" and rs: "requests (purge cfg ?now r) = t # ts" and wt: "w = t + windowMs cfg - ?now"
    by blast
  have later: "?now' \<ge> t + windowMs cfg"
    using delay_clock_ge [of e w site] wt by simp
  have "pending cfg ?now' (t # ts) = length (filter (\<lambda>x. x + windowMs cfg > ?now') ts)"
    using later by (simp add: pending_def)
  also have "\<dots> \<le> length (filter (\<lambda>x. x + windowMs cfg > ?now) ts)"
  proof -
    have "filter (\<lambda>x. x + windowMs cfg > ?now') ts
          = filter (\<lambda>x. x + windowMs cfg > ?now') (filter (\<lambda>x. x + windowMs cfg > ?now) ts)"
      using later w wt by (auto intro!: filter_cong simp: )
    then show ?thesis by (metis length_filter_le)
  qed
  also have "\<dots> < pending cfg ?now (t # ts)"
    using w wt by (simp add: pending_def)
  also have "\<dots> \<le> pending cfg ?now (requests r)"
    using purge_drop [of cfg ?now r] rs length_filter_drop_le
    by (metis pending_def)
  finally show ?thesis using rs by simp
qed

text \<open>checkLimit: purge, then wait and recurse, or push \<open>now\<close>.\<close>

function checkLimit :: "RateLimiterConfig \<Rightarrow> RateLimiter \<times> env \<Rightarrow> RateLimiter \<times> env" where
  "checkLimit cfg (r, e) =
     (let now = clock e;
          r1 = purge cfg now r
      in case waitTime cfg now r1 of
           Some w \<Rightarrow> checkLimit cfg (r1, delay Waited w e)
         | None \<Rightarrow> (r1\<lparr>requests := requests r1 @ [now]\<rparr>, e\<lparr>log := log e @ [Registered now]\<rparr>))"
  by pat_completeness auto
termination
proof (relation "measure (\<lambda>(cfg, r, e). pending cfg (clock e) (requests r))")
  show "wf (measure (\<lambda>(cfg, r, e). pending cfg (clock e) (requests r)))" by simp
next
  fix cfg :: RateLimiterConfig and r r1 :: RateLimiter and e :: env and now w :: int
  assume "now = clock e" and "r1 = purge cfg now r" and "waitTime cfg now r1 = Some w"
  then show "((cfg, r1, delay Waited w e), (cfg, r, e))
        \<in> measure (\<lambda>(cfg, r, e). pending cfg (clock e) (requests r))"
    using pending_decreases [of cfg e r w Waited] by simp
qed

declare checkLimit.simps [simp del]

subsection \<open>execute and isRateLimitError\<close>

text \<open>
  What \<open>fn\<close> throws: an \<open>Error\<close> object with its message, or any other value.
  \<open>toLowerCase\<close> folds A-Z; the four needles are ASCII, and no other character lowers to
  a letter that could complete one of them.
\<close>

datatype thrown = ErrorObj jsstring | Thrown js_value

definition toLowerCase :: "jsstring \<Rightarrow> jsstring" where
  "toLowerCase s = map (\<lambda>c. if 65 \<le> c \<and> c \<le> 90 then c + 32 else c) s"

fun str_includes :: "jsstring \<Rightarrow> jsstring \<Rightarrow> bool" where
  "str_includes [] needle = (needle = [])"
| "str_includes (c # cs) needle = (prefix needle (c # cs) \<or> str_includes cs needle)"

fun isRateLimitError :: "thrown \<Rightarrow> bool" where
  "isRateLimitError (ErrorObj msg) =
     (let message = toLowerCase msg
      in str_includes message (js ''rate limit'')
         \<or> str_includes message (js ''quota exceeded'')
         \<or> str_includes message (js ''429'')
         \<or> str_includes message (js ''too many requests''))"
| "isRateLimitError (Thrown v) = False"

text \<open>
  \<open>fn\<close> may behave differently each time it is called: \<open>fn k\<close> is the outcome of the
  call made with retryCount \<open>k\<close> and the time that call takes.
\<close>

type_synonym 'a thunk = "nat \<Rightarrow> (thrown + 'a) \<times> nat"

function execute ::
  "RateLimiterConfig \<Rightarrow> 'a thunk \<Rightarrow> nat \<Rightarrow> RateLimiter \<times> env \<Rightarrow> (thrown + 'a) \<times> RateLimiter \<times> env"
where
  "execute cfg fn retryCount (r, e) =
     (let (r1, e1) = checkLimit cfg (r, e);
          (res, dur) = fn retryCount;
          e2 = e1\<lparr>clock := clock e1 + int dur, log := log e1 @ [Called retryCount]\<rparr>
      in case res of
           Inr v \<Rightarrow> (Inr v, r1, e2)
         | Inl err \<Rightarrow>
             if isRateLimitError err \<and> int retryCount < maxRetries cfg
             then execute cfg fn (retryCount + 1)
                    (r1, delay BackedOff (retryDelayMs cfg * 2 ^ retryCount) e2)
             else (Inl err, r1, e2))"
  by pat_completeness auto
termination
  by (relation "measure (\<lambda>(cfg, fn, retryCount, s). nat (maxRetries cfg - int retryCount))") auto

declare execute.simps [simp del]

text \<open>
  Sequential use of one limiter: each call starts \<open>gap\<close> milliseconds after the
  previous one returned.
\<close>

datatype 'a call = CheckLimit | Execute "'a thunk"

fun step :: "RateLimiterConfig \<Rightarrow> RateLimiter \<times> env \<Rightarrow> nat \<times> 'a call \<Rightarrow> RateLimiter \<times> env" where
  "step cfg (r, e) (gap, CheckLimit) = checkLimit cfg (r, e\<lparr>clock := clock e + int gap\<rparr>)"
| "step cfg (r, e) (gap, Execute fn) = snd (execute cfg fn 0 (r, e\<lparr>clock := clock e + int gap\<rparr>))"

definition run :: "RateLimiterConfig \<Rightarrow> RateLimiter \<times> env \<Rightarrow> (nat \<times> 'a call) list \<Rightarrow> RateLimiter \<times> env" where
  "run cfg s calls = foldl (step cfg) s calls"

fun registered :: "event list \<Rightarrow> int list" where
  "registered [] = []"
| "registered (Registered t # evs) = t # registered evs"
| "registered (_ # evs) = registered evs"


section \<open>The sliding-window bound\<close>

text \<open>
  A window of \<open>w\<close> milliseconds starting at \<open>a\<close> holds the instants \<open>a \<le> t < a + w\<close>.
\<close>

definition inWindow :: "int \<Rightarrow> int \<Rightarrow> int \<Rightarrow> bool" where
  "inWindow a w t \<longleftrightarrow> a \<le> t \<and> t < a + w"

definition windowCount :: "int \<Rightarrow> int \<Rightarrow> int list \<Rightarrow> nat" where
  "windowCount a w ts = length (filter (inWindow a w) ts)"

lemma windowCount_append: "windowCount a w (xs @ ys) = windowCount a w xs + windowCount a w ys"
  by (simp add: windowCount_def)

lemma windowCount_none: "(\<And>t. t \<in> set xs \<Longrightarrow> \<not> inWindow a w t) \<Longrightarrow> windowCount a w xs = 0"
  by (simp add: windowCount_def)

lemma windowCount_all: "(\<And>t. t \<in> set xs \<Longrightarrow> inWindow a w t) \<Longrightarrow> windowCount a w xs = length xs"
  by (simp add: windowCount_def)

lemma windowCount_le: "windowCount a w xs \<le> length xs"
  by (simp add: windowCount_def)

lemma registered_append: "registered (xs @ ys) = registered xs @ registered ys"
  by (induction xs rule: registered.induct) simp_all

lemma quickCleanup_spec:
  "\<exists>n. quickCleanup cfg now xs = drop n xs
     \<and> (\<forall>t \<in> set (take n xs). t + windowMs cfg \<le> now)
     \<and> (\<forall>t ts. drop n xs = t # ts \<longrightarrow> now < t + windowMs cfg)"
proof (induction xs)
  case Nil
  then show ?case by simp
next
  case (Cons x xs)
  show ?case
  proof (cases "now - x \<ge> windowMs cfg")
    case True
    from Cons obtain n where n: "quickCleanup cfg now xs = drop n xs"
      "\<forall>t \<in> set (take n xs). t + windowMs cfg \<le> now"
      "\<forall>t ts. drop n xs = t # ts \<longrightarrow> now < t + windowMs cfg" by blast
    from True n have "quickCleanup cfg now (x # xs) = drop (Suc n) (x # xs)
       \<and> (\<forall>t \<in> set (take (Suc n) (x # xs)). t + windowMs cfg \<le> now)
       \<and> (\<forall>t ts. drop (Suc n) (x # xs) = t # ts \<longrightarrow> now < t + windowMs cfg)"
      by simp
    then show ?thesis by blast
  next
    case False
    then have "quickCleanup cfg now (x # xs) = drop 0 (x # xs)
       \<and> (\<forall>t \<in> set (take 0 (x # xs)). t + windowMs cfg \<le> now)
       \<and> (\<forall>t ts. drop 0 (x # xs) = t # ts \<longrightarrow> now < t + windowMs cfg)"
      by simp
    then show ?thesis by blast
  qed
qed

lemma removeCount_spec:
  "(\<forall>t \<in> set (take (removeCount c xs) xs). t < c)
   \<and> (\<forall>t ts. drop (removeCount c xs) xs = t # ts \<longrightarrow> c \<le> t)"
  by (induction xs) auto

lemma cleanupOldRequests_spec:
  "\<exists>n. requests (cleanupOldRequests cfg now r) = drop n (requests r)
     \<and> lastCleanup (cleanupOldRequests cfg now r) = lastCleanup r
     \<and> (\<forall>t \<in> set (take n (requests r)). t + windowMs cfg < now)
     \<and> (\<forall>t ts. drop n (requests r) = t # ts \<longrightarrow> now \<le> t + windowMs cfg)"
proof -
  let ?n = "removeCount (now - windowMs cfg) (requests r)"
  have "requests (cleanupOldRequests cfg now r) = drop ?n (requests r)"
    and "lastCleanup (cleanupOldRequests cfg now r) = lastCleanup r"
    by (simp_all add: cleanupOldRequests_def Let_def)
  moreover have "\<forall>t \<in> set (take ?n (requests r)). t + windowMs cfg < now"
    using removeCount_spec [of "now - windowMs cfg" "requests r"] by auto
  moreover have "\<forall>t ts. drop ?n (requests r) = t # ts \<longrightarrow> now \<le> t + windowMs cfg"
    using removeCount_spec [of "now - windowMs cfg" "requests r"] by auto
  ultimately show ?thesis by blast
qed

lemma purge_cases:
  obtains (quick) n where "now - lastCleanup r \<le> cleanupInterval"
      "lastCleanup (purge cfg now r) = lastCleanup r"
      "requests (purge cfg now r) = drop n (requests r)"
      "\<forall>t \<in> set (take n (requests r)). t + windowMs cfg \<le> now"
      "\<forall>t ts. drop n (requests r) = t # ts \<longrightarrow> now < t + windowMs cfg"
  | (full) n where "now - lastCleanup r > cleanupInterval"
      "lastCleanup (purge cfg now r) = now"
      "requests (purge cfg now r) = drop n (requests r)"
      "\<forall>t \<in> set (take n (requests r)). t + windowMs cfg < now"
      "\<forall>t ts. drop n (requests r) = t # ts \<longrightarrow> now \<le> t + windowMs cfg"
proof (cases "now - lastCleanup r > cleanupInterval")
  case True
  from cleanupOldRequests_spec [of cfg now r] obtain n where
    "requests (cleanupOldRequests cfg now r) = drop n (requests r)"
    "\<forall>t \<in> set (take n (requests r)). t + windowMs cfg < now"
    "\<forall>t ts. drop n (requests r) = t # ts \<longrightarrow> now \<le> t + windowMs cfg" by blast
  with True show ?thesis by (intro full [of n]) (simp_all add: purge_def)
next
  case False
  from quickCleanup_spec [of cfg now "requests r"] obtain n where
    "quickCleanup cfg now (requests r) = drop n (requests r)"
    "\<forall>t \<in> set (take n (requests r)). t + windowMs cfg \<le> now"
    "\<forall>t ts. drop n (requests r) = t # ts \<longrightarrow> now < t + windowMs cfg" by blast
  with False show ?thesis by (intro quick [of n]) (simp_all add: purge_def)
qed

text \<open>
  The invariant of a limiter. The buffer is the end of the history of registered
  timestamps, and what has left it has expired; the history is sorted and not in the
  future; every buffered timestamp was taken within 10 s after the last full cleanup; and
  the window bound holds for the history.
\<close>

definition limiter_inv :: "RateLimiterConfig \<Rightarrow> RateLimiter \<times> env \<Rightarrow> bool" where
  "limiter_inv cfg s \<longleftrightarrow>
     (\<exists>d. registered (log (snd s)) = d @ requests (fst s)
          \<and> (\<forall>t \<in> set d. t + windowMs cfg \<le> clock (snd s)))
     \<and> sorted (registered (log (snd s)))
     \<and> (\<forall>t \<in> set (registered (log (snd s))). t \<le> clock (snd s))
     \<and> (\<forall>t \<in> set (requests (fst s)). t \<le> lastCleanup (fst s) + cleanupInterval)
     \<and> (\<forall>a. int (windowCount a (windowMs cfg) (registered (log (snd s)))) \<le> maxRequests cfg)"

lemma sorted_suffix_hd:
  assumes "sorted (d @ t # ts)" and "x \<in> set (t # ts)"
  shows "(t::int) \<le> x"
  using assms by (auto simp: sorted_append)

text \<open>The purged buffer is still a suffix of the history, and what left it has expired.\<close>

lemma purge_suffix:
  assumes "registered (log e) = d @ requests r"
      and "\<forall>t \<in> set d. t + windowMs cfg \<le> clock e"
      and "clock e \<le> c"
  shows "\<exists>d'. registered (log e) = d' @ requests (purge cfg (clock e) r)
            \<and> (\<forall>t \<in> set d'. t + windowMs cfg \<le> c)"
proof -
  obtain n where n: "requests (purge cfg (clock e) r) = drop n (requests r)"
      "\<forall>t \<in> set (take n (requests r)). t + windowMs cfg \<le> clock e"
    by (cases rule: purge_cases [of "clock e" r cfg]) force+
  have "registered (log e) = (d @ take n (requests r)) @ requests (purge cfg (clock e) r)"
    using assms(1) n(1) by simp
  moreover have "\<forall>t \<in> set (d @ take n (requests r)). t + windowMs cfg \<le> c"
    using assms(2,3) n(2) by auto
  ultimately show ?thesis by blast
qed

lemma purge_recent:
  assumes "\<forall>t \<in> set (requests r). t \<le> lastCleanup r + cleanupInterval"
  shows "\<forall>t \<in> set (requests (purge cfg now r)). t \<le> lastCleanup (purge cfg now r) + cleanupInterval"
proof (cases rule: purge_cases [of now r cfg])
  case (quick n)
  then show ?thesis using assms by (auto dest: in_set_dropD)
next
  case (full n)
  then show ?thesis using assms by (auto dest!: in_set_dropD simp: cleanupInterval_def)
qed

lemma inv_wait:
  assumes "limiter_inv cfg (r, e)"
  shows "limiter_inv cfg (purge cfg (clock e) r, delay Waited w e)"
proof -
  let ?e' = "delay Waited w e"
  have lg: "registered (log ?e') = registered (log e)"
    by (simp add: delay_def registered_append)
  have ck: "clock e \<le> clock ?e'"
    by (cases "late e") (simp_all add: delay_def)
  from assms obtain d where d: "registered (log e) = d @ requests r"
      "\<forall>t \<in> set d. t + windowMs cfg \<le> clock e"
    by (auto simp: limiter_inv_def)
  from purge_suffix [OF d ck]
  have 1: "\<exists>d'. registered (log ?e') = d' @ requests (purge cfg (clock e) r)
            \<and> (\<forall>t \<in> set d'. t + windowMs cfg \<le> clock ?e')"
    unfolding lg .
  have 2: "sorted (registered (log ?e'))"
    using assms by (simp add: limiter_inv_def lg)
  have 3: "\<forall>t \<in> set (registered (log ?e')). t \<le> clock ?e'"
    using assms ck by (auto simp: limiter_inv_def lg)
  have 4: "\<forall>t \<in> set (requests (purge cfg (clock e) r)).
             t \<le> lastCleanup (purge cfg (clock e) r) + cleanupInterval"
    using assms by (intro purge_recent) (simp add: limiter_inv_def)
  have 5: "\<forall>a. int (windowCount a (windowMs cfg) (registered (log ?e'))) \<le> maxRequests cfg"
    using assms by (simp add: limiter_inv_def lg)
  from 1 2 3 4 5 show ?thesis
    unfolding limiter_inv_def fst_conv snd_conv by blast
qed

text \<open>
  The heart of the window bound: when the call registers \<open>now\<close>, fewer than maxRequests
  registered timestamps lie less than windowMs before \<open>now\<close>.
\<close>

lemma push_room:
  assumes inv: "limiter_inv cfg (r, e)"
      and m: "1 \<le> maxRequests cfg"
      and nw: "waitTime cfg (clock e) (purge cfg (clock e) r) = None"
      and a: "inWindow a (windowMs cfg) (clock e)"
  shows "int (windowCount a (windowMs cfg) (registered (log e))) < maxRequests cfg"
proof -
  let ?now = "clock e" and ?W = "windowMs cfg" and ?M = "maxRequests cfg"
  let ?H = "registered (log e)" and ?rs = "requests (purge cfg ?now r)"
  from inv obtain d where d: "?H = d @ requests r" "\<forall>t \<in> set d. t + ?W \<le> ?now"
    by (auto simp: limiter_inv_def)
  from purge_suffix [OF d order_refl] obtain d' where
    d': "?H = d' @ ?rs" "\<forall>t \<in> set d'. t + ?W \<le> ?now" by blast
  from inv have srt: "sorted ?H" and wc: "\<And>b. int (windowCount b ?W ?H) \<le> ?M"
    and rec: "\<forall>t \<in> set (requests r). t \<le> lastCleanup r + cleanupInterval"
    by (auto simp: limiter_inv_def)
  from a have a1: "a \<le> ?now" and a2: "?now < a + ?W" by (auto simp: inWindow_def)
  have out: "windowCount a ?W d' = 0"
  proof (rule windowCount_none)
    fix t assume "t \<in> set d'"
    with d'(2) a2 show "\<not> inWindow a ?W t" by (auto simp: inWindow_def)
  qed
  have cnt: "windowCount a ?W ?H = windowCount a ?W ?rs"
    using d'(1) out by (metis windowCount_append add_0)
  show ?thesis
  proof (cases "int (length ?rs) < ?M")
    case True
    with cnt windowCount_le [of a ?W ?rs] show ?thesis by simp
  next
    case False
    with nw m obtain t ts where ts: "?rs = t # ts" and old: "t + ?W - ?now \<le> 0"
      by (auto simp: waitTime_def Let_def split: if_splits list.splits)
    show ?thesis
    proof (cases rule: purge_cases [of ?now r cfg])
      case (quick n)
      with ts old show ?thesis by force
    next
      case (full n)
      with ts old have teq: "t + ?W = ?now" by force
      have sub: "set ?rs \<subseteq> set (requests r)"
        using full(3) by (auto dest: in_set_dropD)
      have all_in: "\<And>x. x \<in> set ?rs \<Longrightarrow> inWindow (?now - ?W) ?W x"
      proof -
        fix x assume x: "x \<in> set ?rs"
        have "t \<le> x" using srt d'(1) ts x sorted_suffix_hd [of d' t ts x] by simp
        moreover have "x < ?now" using x sub rec full(1) by force
        ultimately show "inWindow (?now - ?W) ?W x" using teq by (simp add: inWindow_def)
      qed
      have "int (length ?rs) = int (windowCount (?now - ?W) ?W ?rs)"
        using windowCount_all [of ?rs "?now - ?W" ?W] all_in by simp
      also have "\<dots> \<le> int (windowCount (?now - ?W) ?W ?H)"
        using d'(1) by (simp add: windowCount_append)
      also have "\<dots> \<le> ?M" by (rule wc)
      finally have len: "int (length ?rs) \<le> ?M" .
      have "\<not> inWindow a ?W t" using teq a2 by (simp add: inWindow_def)
      then have "windowCount a ?W ?rs = windowCount a ?W ts"
        using ts by (simp add: windowCount_def)
      with windowCount_le [of a ?W ts] cnt len ts show ?thesis by simp
    qed
  qed
qed

lemma inv_push:
  assumes inv: "limiter_inv cfg (r, e)"
      and m: "1 \<le> maxRequests cfg"
      and nw: "waitTime cfg (clock e) (purge cfg (clock e) r) = None"
  shows "limiter_inv cfg
           ((purge cfg (clock e) r)\<lparr>requests := requests (purge cfg (clock e) r) @ [clock e]\<rparr>,
            e\<lparr>log := log e @ [Registered (clock e)]\<rparr>)"
proof -
  let ?now = "clock e" and ?W = "windowMs cfg" and ?M = "maxRequests cfg"
  let ?H = "registered (log e)" and ?p = "purge cfg ?now r"
  let ?e' = "e\<lparr>log := log e @ [Registered ?now]\<rparr>"
  let ?r' = "?p\<lparr>requests := requests ?p @ [?now]\<rparr>"
  have lg: "registered (log ?e') = ?H @ [?now]" by (simp add: registered_append)
  from inv obtain d where d: "?H = d @ requests r" "\<forall>t \<in> set d. t + ?W \<le> ?now"
    by (auto simp: limiter_inv_def)
  from purge_suffix [OF d order_refl] obtain d' where
    d': "?H = d' @ requests ?p" "\<forall>t \<in> set d'. t + ?W \<le> ?now" by blast
  from inv have srt: "sorted ?H" and le: "\<forall>t \<in> set ?H. t \<le> ?now"
    and wc: "\<And>b. int (windowCount b ?W ?H) \<le> ?M"
    and rec: "\<forall>t \<in> set (requests r). t \<le> lastCleanup r + cleanupInterval"
    by (auto simp: limiter_inv_def)
  have 1: "\<exists>d. registered (log ?e') = d @ requests ?r' \<and> (\<forall>t \<in> set d. t + ?W \<le> clock ?e')"
    using d' by (simp add: registered_append)
  have 2: "sorted (registered (log ?e'))"
    using srt le by (simp add: registered_append sorted_append)
  have 3: "\<forall>t \<in> set (registered (log ?e')). t \<le> clock ?e'"
    using le by (simp add: registered_append)
  have "?now \<le> lastCleanup ?p + cleanupInterval"
    by (cases rule: purge_cases [of ?now r cfg]) (simp_all add: cleanupInterval_def)
  with purge_recent [OF rec, of cfg ?now]
  have 4: "\<forall>t \<in> set (requests ?r'). t \<le> lastCleanup ?r' + cleanupInterval" by simp
  have 5: "\<forall>a. int (windowCount a ?W (registered (log ?e'))) \<le> ?M"
  proof
    fix a
    show "int (windowCount a ?W (registered (log ?e'))) \<le> ?M"
    proof (cases "inWindow a ?W ?now")
      case True
      from push_room [OF inv m nw True] True show ?thesis
        by (simp add: registered_append windowCount_append) (simp add: windowCount_def)
    next
      case False
      with wc [of a] show ?thesis
        by (simp add: registered_append windowCount_append) (simp add: windowCount_def)
    qed
  qed
  from 1 2 3 4 5 show ?thesis
    unfolding limiter_inv_def fst_conv snd_conv by blast
qed

lemma checkLimit_inv:
  assumes "1 \<le> maxRequests cfg" and "limiter_inv cfg s"
  shows "limiter_inv cfg (checkLimit cfg s)"
  using assms
proof (induction cfg s rule: checkLimit.induct)
  case (1 cfg r e)
  show ?case
  proof (cases "waitTime cfg (clock e) (purge cfg (clock e) r)")
    case None
    with inv_push [OF "1.prems"(2,1) None] show ?thesis
      by (simp add: checkLimit.simps [of cfg r e] Let_def)
  next
    case (Some w)
    have "limiter_inv cfg (checkLimit cfg (purge cfg (clock e) r, delay Waited w e))"
      using "1.IH" [OF refl refl Some "1.prems"(1)] inv_wait [OF "1.prems"(2)] by blast
    with Some show ?thesis by (simp add: checkLimit.simps [of cfg r e] Let_def)
  qed
qed

text \<open>getStats, read at the time \<open>now\<close>.\<close>

record stats =
  currentRequests :: nat
  statsMaxRequests :: int
  statsWindowMs :: int

definition getStats :: "RateLimiterConfig \<Rightarrow> int \<Rightarrow> RateLimiter \<Rightarrow> stats" where
  "getStats cfg now r =
     (let activeRequests = filter (\<lambda>timestamp. now - timestamp < windowMs cfg) (requests r)
      in \<lparr>currentRequests = length activeRequests,
          statsMaxRequests = maxRequests cfg,
          statsWindowMs = windowMs cfg\<rparr>)"

lemma inv_env:
  assumes "limiter_inv cfg (r, e)" and "clock e \<le> clock e'"
      and "registered (log e') = registered (log e)"
  shows "limiter_inv cfg (r, e')"
proof -
  from assms(1) obtain d where d: "registered (log e) = d @ requests r"
      "\<forall>t \<in> set d. t + windowMs cfg \<le> clock e"
    and rest: "sorted (registered (log e))" "\<forall>t \<in> set (registered (log e)). t \<le> clock e"
      "\<forall>t \<in> set (requests r). t \<le> lastCleanup r + cleanupInterval"
      "\<forall>a. int (windowCount a (windowMs cfg) (registered (log e))) \<le> maxRequests cfg"
    unfolding limiter_inv_def fst_conv snd_conv by blast
  have 1: "\<exists>d. registered (log e') = d @ requests r \<and> (\<forall>t \<in> set d. t + windowMs cfg \<le> clock e')"
    using d assms(2,3) by (intro exI [of _ d]) auto
  have 3: "\<forall>t \<in> set (registered (log e')). t \<le> clock e'"
    using rest(2) assms(2,3) by auto
  from 1 3 rest(1,3,4) show ?thesis
    unfolding limiter_inv_def fst_conv snd_conv assms(3) by blast
qed

lemma delay_env:
  "clock e \<le> clock (delay site ms e)"
  "registered (log (delay BackedOff ms e)) = registered (log e)"
proof -
  show "clock e \<le> clock (delay site ms e)"
    by (cases "late e") (simp_all add: delay_def)
  show "registered (log (delay BackedOff ms e)) = registered (log e)"
    by (simp add: delay_def registered_append)
qed

text \<open>The environment after the call of \<open>fn\<close> with retryCount \<open>k\<close> returned or threw.\<close>

definition afterCall :: "'a thunk \<Rightarrow> nat \<Rightarrow> RateLimiter \<times> env \<Rightarrow> env" where
  "afterCall fn k s1 =
     (snd s1)\<lparr>clock := clock (snd s1) + int (snd (fn k)), log := log (snd s1) @ [Called k]\<rparr>"

lemma execute_unfold:
  "execute cfg fn k s =
     (case fst (fn k) of
        Inr v \<Rightarrow> (Inr v, fst (checkLimit cfg s), afterCall fn k (checkLimit cfg s))
      | Inl err \<Rightarrow>
          if isRateLimitError err \<and> int k < maxRetries cfg
          then execute cfg fn (k + 1)
                 (fst (checkLimit cfg s),
                  delay BackedOff (retryDelayMs cfg * 2 ^ k) (afterCall fn k (checkLimit cfg s)))
          else (Inl err, fst (checkLimit cfg s), afterCall fn k (checkLimit cfg s)))"
proof -
  obtain r e where s: "s = (r, e)" by (cases s)
  obtain r1 e1 where c: "checkLimit cfg (r, e) = (r1, e1)" by (cases "checkLimit cfg (r, e)")
  obtain res dur where f: "fn k = (res, dur)" by (cases "fn k")
  show ?thesis
    unfolding s by (subst execute.simps) (simp add: c f afterCall_def Let_def split: sum.splits)
qed

lemma execute_Inr:
  "fst (fn k) = Inr v \<Longrightarrow>
   execute cfg fn k s = (Inr v, fst (checkLimit cfg s), afterCall fn k (checkLimit cfg s))"
  by (subst execute_unfold) simp

lemma execute_giveup:
  "fst (fn k) = Inl err \<Longrightarrow> \<not> (isRateLimitError err \<and> int k < maxRetries cfg) \<Longrightarrow>
   execute cfg fn k s = (Inl err, fst (checkLimit cfg s), afterCall fn k (checkLimit cfg s))"
  by (subst execute_unfold) auto

lemma execute_retry:
  "fst (fn k) = Inl err \<Longrightarrow> isRateLimitError err \<Longrightarrow> int k < maxRetries cfg \<Longrightarrow>
   execute cfg fn k s =
     execute cfg fn (k + 1)
       (fst (checkLimit cfg s),
        delay BackedOff (retryDelayMs cfg * 2 ^ k) (afterCall fn k (checkLimit cfg s)))"
  by (subst execute_unfold) simp

lemma execute_inv:
  assumes "1 \<le> maxRequests cfg" and "limiter_inv cfg s"
  shows "limiter_inv cfg (snd (execute cfg fn k s))"
  using assms(2)
proof (induction "nat (maxRetries cfg - int k)" arbitrary: k s rule: less_induct)
  case less
  let ?s1 = "checkLimit cfg s"
  let ?e2 = "afterCall fn k ?s1"
  have "limiter_inv cfg (fst ?s1, snd ?s1)"
    using checkLimit_inv [OF assms(1) less.prems] by simp
  then have i2: "limiter_inv cfg (fst ?s1, ?e2)"
    by (rule inv_env) (simp_all add: registered_append afterCall_def)
  show ?case
  proof (cases "fst (fn k)")
    case (Inr v)
    with i2 show ?thesis by (simp add: execute_Inr)
  next
    case (Inl err)
    show ?thesis
    proof (cases "isRateLimitError err \<and> int k < maxRetries cfg")
      case False
      with i2 show ?thesis
        by (simp only: execute_giveup [where fn = fn and k = k, OF Inl False] snd_conv)
    next
      case True
      let ?s3 = "(fst ?s1, delay BackedOff (retryDelayMs cfg * 2 ^ k) ?e2)"
      have "limiter_inv cfg ?s3"
        using i2 by (rule inv_env) (rule delay_env)+
      moreover have "nat (maxRetries cfg - int (k + 1)) < nat (maxRetries cfg - int k)"
        using True by simp
      ultimately have "limiter_inv cfg (snd (execute cfg fn (k + 1) ?s3))"
        using less.hyps by blast
      with True show ?thesis
        by (simp only: execute_retry [where fn = fn and k = k, OF Inl])
    qed
  qed
qed

lemma step_inv:
  assumes "1 \<le> maxRequests cfg" and "limiter_inv cfg s"
  shows "limiter_inv cfg (step cfg s c)"
proof -
  obtain r e where s: "s = (r, e)" by (cases s)
  obtain gap k where c: "c = (gap, k)" by (cases c)
  have "limiter_inv cfg (r, e\<lparr>clock := clock e + int gap\<rparr>)"
    using assms(2) unfolding s by (rule inv_env) simp_all
  then show ?thesis
    unfolding s c using checkLimit_inv [OF assms(1)] execute_inv [OF assms(1)]
    by (cases k) simp_all
qed

lemma run_inv:
  assumes "1 \<le> maxRequests cfg" and "limiter_inv cfg s"
  shows "limiter_inv cfg (run cfg s calls)"
  using assms(2) unfolding run_def
proof (induction calls arbitrary: s)
  case Nil
  then show ?case by simp
next
  case (Cons c calls)
  have "limiter_inv cfg (step cfg s c)" by (rule step_inv [OF assms(1) Cons.prems])
  then have "limiter_inv cfg (foldl (step cfg) (step cfg s c) calls)" by (rule Cons.IH)
  then show ?case by simp
qed

lemma new_inv:
  assumes "1 \<le> maxRequests cfg"
  shows "limiter_inv cfg (newRateLimiter, \<lparr>clock = t0, late = ls, log = []\<rparr>)"
  using assms unfolding limiter_inv_def fst_conv snd_conv
  by (simp add: newRateLimiter_def windowCount_def)

lemma stats_le_window:
  assumes "limiter_inv cfg (r, e)" and "clock e \<le> now"
  shows "int (currentRequests (getStats cfg now r)) \<le> maxRequests cfg"
proof -
  let ?W = "windowMs cfg"
  from assms(1) obtain d where d: "registered (log e) = d @ requests r"
    and le: "\<forall>t \<in> set (registered (log e)). t \<le> clock e"
    and wc: "int (windowCount (now - ?W + 1) ?W (registered (log e))) \<le> maxRequests cfg"
    by (auto simp: limiter_inv_def)
  have "\<And>t. t \<in> set (requests r) \<Longrightarrow> t \<le> now"
  proof -
    fix t assume "t \<in> set (requests r)"
    then have "t \<in> set (registered (log e))" by (simp add: d)
    with le have "t \<le> clock e" by blast
    with assms(2) show "t \<le> now" by simp
  qed
  then have "filter (\<lambda>t. now - t < ?W) (requests r) = filter (inWindow (now - ?W + 1) ?W) (requests r)"
    by (intro filter_cong) (auto simp: inWindow_def)
  then have "currentRequests (getStats cfg now r) = windowCount (now - ?W + 1) ?W (requests r)"
    by (simp add: getStats_def windowCount_def)
  also have "\<dots> \<le> windowCount (now - ?W + 1) ?W (registered (log e))"
    by (simp add: d windowCount_append)
  finally show ?thesis using wc by simp
qed


subsection \<open>Concrete limiters\<close>

definition cfg_2_per_second :: RateLimiterConfig where
  "cfg_2_per_second = mkConfig 2 1000 None None"


definition env0 :: env where
  "env0 = \<lparr>clock = 100000, late = [], log = []\<rparr>"


lemmas rl_eval = run_def checkLimit.simps purge_def waitTime_def cleanupOldRequests_def
  delay_def cleanupInterval_def mkConfig_def newRateLimiter_def env0_def Let_def


text \<open>
  C2 (amended). For a limiter configured with maxRequests at least 1, started fresh and
  used through any sequence of sequential checkLimit and execute calls, with any idle
  times between the calls and any lateness of the timers: every window of windowMs
  milliseconds (\<open>a \<le> t < a + windowMs\<close>) holds at most maxRequests of the timestamps
  registered so far, and getStats read at any later time reports at most maxRequests
  current requests.
\<close>

theorem window_bound:
  assumes "1 \<le> maxRequests cfg"
      and "s = run cfg (newRateLimiter, \<lparr>clock = t0, late = ls, log = []\<rparr>) calls"
  shows "int (windowCount a (windowMs cfg) (registered (log (snd s)))) \<le> maxRequests cfg
         \<and> int (currentRequests (getStats cfg (clock (snd s) + int later) (fst s))) \<le> maxRequests cfg"
proof -
  have i: "limiter_inv cfg (fst s, snd s)"
    unfolding assms(2) using run_inv [OF assms(1) new_inv [OF assms(1)]] by simp
  then have "int (windowCount a (windowMs cfg) (registered (log (snd s)))) \<le> maxRequests cfg"
    by (simp add: limiter_inv_def)
  moreover have "int (currentRequests (getStats cfg (clock (snd s) + int later) (fst s))) \<le> maxRequests cfg"
    using i by (rule stats_le_window) simp
  ultimately show ?thesis ..
qed

theorem window_bound_witness:
  "1 \<le> maxRequests cfg_2_per_second
   \<and> registered (log (snd (run cfg_2_per_second (newRateLimiter, env0)
         [(0, CheckLimit :: unit call), (0, CheckLimit), (200, CheckLimit)])))
       = [100000, 100000, 101000]
   \<and> int (windowCount 100000 1000 [100000, 100000, 101000]) \<le> 2"
proof -
  let ?calls = "[(0, CheckLimit :: unit call), (0, CheckLimit), (200, CheckLimit)]"
  have m: "1 \<le> maxRequests cfg_2_per_second"
    by (simp add: cfg_2_per_second_def mkConfig_def)
  have v: "registered (log (snd (run cfg_2_per_second (newRateLimiter, env0) ?calls)))
       = [100000, 100000, 101000]"
    by (simp add: rl_eval cfg_2_per_second_def)
  have c: "maxRequests cfg_2_per_second = 2" "windowMs cfg_2_per_second = 1000"
    by (simp_all add: cfg_2_per_second_def mkConfig_def)
  from window_bound [OF m, of "run cfg_2_per_second (newRateLimiter, env0) ?calls"
      100000 "[]" ?calls 100000 0]
  have "int (windowCount 100000 1000 [100000, 100000, 101000]) \<le> 2"
    unfolding env0_def [symmetric] v c by simp
  with m v show ?thesis by blast
qed


text \<open>
  With maxRequests 0 the first call registers its timestamp at once (the buffer is
  empty, so there is no oldest request to wait for): one timestamp in the window, more
  than maxRequests.
\<close>

theorem window_bound_counterexample:
  "\<not> int (windowCount 100000 1000
        (registered (log (snd (run (mkConfig 0 1000 None None) (newRateLimiter, env0)
           [(0, CheckLimit :: unit call)])))))
      \<le> maxRequests (mkConfig 0 1000 None None)"
  by (simp add: rl_eval windowCount_def inWindow_def)

section \<open>What one checkLimit call does\<close>


lemma checkLimit_None:
  "waitTime cfg (clock e) (purge cfg (clock e) r) = None \<Longrightarrow>
   checkLimit cfg (r, e) =
     ((purge cfg (clock e) r)\<lparr>requests := requests (purge cfg (clock e) r) @ [clock e]\<rparr>,
      e\<lparr>log := log e @ [Registered (clock e)]\<rparr>)"
  by (subst checkLimit.simps) (simp add: Let_def)

lemma checkLimit_Some:
  "waitTime cfg (clock e) (purge cfg (clock e) r) = Some w \<Longrightarrow>
   checkLimit cfg (r, e) = checkLimit cfg (purge cfg (clock e) r, delay Waited w e)"
  by (subst checkLimit.simps) (simp add: Let_def)

lemma purge_front:
  "\<exists>n. requests (purge cfg now r) = drop n (requests r)
       \<and> (\<forall>t \<in> set (take n (requests r)). t + windowMs cfg \<le> now)"
  by (cases rule: purge_cases [of now r cfg]) force+


text \<open>What one call does to the clock, the buffer and the log.\<close>

lemma checkLimit_effect:
  "\<exists>n ws. requests (fst (checkLimit cfg (r, e)))
              = drop n (requests r) @ [clock (snd (checkLimit cfg (r, e)))]
     \<and> (\<forall>t \<in> set (take n (requests r)). t + windowMs cfg \<le> clock (snd (checkLimit cfg (r, e))))
     \<and> log (snd (checkLimit cfg (r, e)))
          = log e @ map Waited ws @ [Registered (clock (snd (checkLimit cfg (r, e))))]
     \<and> (\<forall>w \<in> set ws. 0 < w)
     \<and> clock e \<le> clock (snd (checkLimit cfg (r, e)))"
proof (induction cfg "(r, e)" arbitrary: r e rule: checkLimit.induct)
  case (1 cfg r e)
  let ?p = "purge cfg (clock e) r"
  obtain n where n: "requests ?p = drop n (requests r)"
      "\<forall>t \<in> set (take n (requests r)). t + windowMs cfg \<le> clock e"
    using purge_front by blast
  show ?case
  proof (cases "waitTime cfg (clock e) ?p")
    case None
    show ?thesis
      unfolding checkLimit_None [OF None]
      using n by (intro exI [of _ n] exI [of _ "[]"]) simp
  next
    case (Some w)
    let ?e1 = "delay Waited w e"
    let ?s' = "checkLimit cfg (?p, ?e1)"
    from "1.hyps" [OF refl refl Some] obtain k ws where
      k: "requests (fst ?s') = drop k (requests ?p) @ [clock (snd ?s')]"
         "\<forall>t \<in> set (take k (requests ?p)). t + windowMs cfg \<le> clock (snd ?s')"
         "log (snd ?s') = log ?e1 @ map Waited ws @ [Registered (clock (snd ?s'))]"
         "\<forall>w \<in> set ws. 0 < w" "clock ?e1 \<le> clock (snd ?s')"
      by blast
    have w: "0 < w" using waitTime_Some [OF Some] by blast
    have ck: "clock e \<le> clock ?e1" by (rule delay_env)
    have lg: "log ?e1 = log e @ [Waited w]" by (simp add: delay_def)
    have a: "requests (fst ?s') = drop (n + k) (requests r) @ [clock (snd ?s')]"
      using k(1) n(1) by (simp add: add.commute)
    have "set (take (n + k) (requests r)) = set (take n (requests r)) \<union> set (take k (drop n (requests r)))"
      by (metis take_add set_append)
    then have b: "\<forall>t \<in> set (take (n + k) (requests r)). t + windowMs cfg \<le> clock (snd ?s')"
      using n k(2,5) ck by force
    have c: "log (snd ?s') = log e @ map Waited (w # ws) @ [Registered (clock (snd ?s'))]"
      using k(3) lg by simp
    have d: "\<forall>x \<in> set (w # ws). 0 < x" using w k(4) by simp
    have e: "clock e \<le> clock (snd ?s')" using ck k(5) by simp
    from a b c d e show ?thesis
      unfolding checkLimit_Some [OF Some] by blast
  qed
qed







section \<open>Retries of execute\<close>

text \<open>
  The calls of \<open>fn\<close> and the backoff delays of a log, in order; \<open>attempt cfg k\<close> is a
  failed call with retryCount \<open>k\<close> followed by its backoff.
\<close>

fun retryEvents :: "event list \<Rightarrow> event list" where
  "retryEvents [] = []"
| "retryEvents (Called k # evs) = Called k # retryEvents evs"
| "retryEvents (BackedOff ms # evs) = BackedOff ms # retryEvents evs"
| "retryEvents (_ # evs) = retryEvents evs"

definition attempt :: "RateLimiterConfig \<Rightarrow> nat \<Rightarrow> event list" where
  "attempt cfg k = [Called k, BackedOff (retryDelayMs cfg * 2 ^ k)]"

definition rateLimitNeedles :: "jsstring list" where
  "rateLimitNeedles = [js ''rate limit'', js ''quota exceeded'', js ''429'', js ''too many requests'']"

lemma retryEvents_append: "retryEvents (xs @ ys) = retryEvents xs @ retryEvents ys"
  by (induction xs rule: retryEvents.induct) simp_all

lemma retryEvents_Waited: "retryEvents (map Waited ws) = []"
  by (induction ws) simp_all

lemma checkLimit_retryEvents:
  "retryEvents (log (snd (checkLimit cfg s))) = retryEvents (log (snd s))"
proof -
  obtain r e where s: "s = (r, e)" by (cases s)
  from checkLimit_effect [of cfg r e] obtain ws where
    "log (snd (checkLimit cfg (r, e)))
       = log e @ map Waited ws @ [Registered (clock (snd (checkLimit cfg (r, e))))]"
    by blast
  then show ?thesis unfolding s by (simp add: retryEvents_append retryEvents_Waited)
qed

lemma afterCall_retryEvents:
  "retryEvents (log (afterCall fn k (checkLimit cfg s))) = retryEvents (log (snd s)) @ [Called k]"
  by (simp add: afterCall_def retryEvents_append checkLimit_retryEvents)

lemma str_includes_sublist: "str_includes s needle \<longleftrightarrow> sublist needle s"
proof (induction s)
  case Nil
  then show ?case by simp
next
  case (Cons c cs)
  then show ?case by (simp add: sublist_Cons_right)
qed

lemma execute_trace:
  "\<exists>n \<ge> k.
     retryEvents (log (snd (snd (execute cfg fn k s))))
       = retryEvents (log (snd s)) @ concat (map (attempt cfg) [k..<n]) @ [Called n]
     \<and> fst (execute cfg fn k s) = fst (fn n)
     \<and> (\<forall>j. k \<le> j \<and> j < n \<longrightarrow>
           (\<exists>err. fst (fn j) = Inl err \<and> isRateLimitError err) \<and> int j < maxRetries cfg)
     \<and> (\<forall>err. fst (fn n) = Inl err \<and> isRateLimitError err \<longrightarrow> maxRetries cfg \<le> int n)"
proof (induction "nat (maxRetries cfg - int k)" arbitrary: k s rule: less_induct)
  case less
  let ?s1 = "checkLimit cfg s"
  let ?e2 = "afterCall fn k ?s1"
  have here: "retryEvents (log ?e2) = retryEvents (log (snd s)) @ concat (map (attempt cfg) [k..<k]) @ [Called k]"
    by (simp add: afterCall_retryEvents)
  show ?case
  proof (cases "fst (fn k)")
    case (Inr v)
    have "execute cfg fn k s = (Inr v, fst ?s1, ?e2)" by (rule execute_Inr [where fn = fn and k = k, OF Inr])
    with here Inr show ?thesis by (intro exI [of _ k]) auto
  next
    case (Inl err)
    show ?thesis
    proof (cases "isRateLimitError err \<and> int k < maxRetries cfg")
      case False
      have "execute cfg fn k s = (Inl err, fst ?s1, ?e2)"
        by (rule execute_giveup [where fn = fn and k = k, OF Inl False])
      with here Inl False show ?thesis by (intro exI [of _ k]) auto
    next
      case True
      let ?s3 = "(fst ?s1, delay BackedOff (retryDelayMs cfg * 2 ^ k) ?e2)"
      have eq: "execute cfg fn k s = execute cfg fn (k + 1) ?s3"
        using True by (simp only: execute_retry [where fn = fn and k = k, OF Inl])
      have lg: "retryEvents (log (snd ?s3)) = retryEvents (log (snd s)) @ attempt cfg k"
        by (simp add: delay_def retryEvents_append afterCall_retryEvents attempt_def)
      have "nat (maxRetries cfg - int (k + 1)) < nat (maxRetries cfg - int k)"
        using True by simp
      from less.hyps [OF this, of ?s3] obtain n where n: "k + 1 \<le> n"
        "retryEvents (log (snd (snd (execute cfg fn (k + 1) ?s3))))
           = retryEvents (log (snd ?s3)) @ concat (map (attempt cfg) [k + 1..<n]) @ [Called n]"
        "fst (execute cfg fn (k + 1) ?s3) = fst (fn n)"
        "\<forall>j. k + 1 \<le> j \<and> j < n \<longrightarrow>
           (\<exists>err. fst (fn j) = Inl err \<and> isRateLimitError err) \<and> int j < maxRetries cfg"
        "\<forall>err. fst (fn n) = Inl err \<and> isRateLimitError err \<longrightarrow> maxRetries cfg \<le> int n"
        by blast
      have up: "[k..<n] = k # [k + 1..<n]" using n(1) by (simp add: upt_conv_Cons)
      have a: "retryEvents (log (snd (snd (execute cfg fn k s))))
           = retryEvents (log (snd s)) @ concat (map (attempt cfg) [k..<n]) @ [Called n]"
        unfolding eq n(2) lg up by simp
      have b: "fst (execute cfg fn k s) = fst (fn n)" unfolding eq by (rule n(3))
      have c: "\<forall>j. k \<le> j \<and> j < n \<longrightarrow>
           (\<exists>err. fst (fn j) = Inl err \<and> isRateLimitError err) \<and> int j < maxRetries cfg"
      proof (intro allI impI)
        fix j assume j: "k \<le> j \<and> j < n"
        show "(\<exists>err. fst (fn j) = Inl err \<and> isRateLimitError err) \<and> int j < maxRetries cfg"
        proof (cases "j = k")
          case True
          with Inl \<open>isRateLimitError err \<and> int k < maxRetries cfg\<close> show ?thesis by blast
        next
          case False
          with j have "k + 1 \<le> j \<and> j < n" by simp
          with n(4) show ?thesis by blast
        qed
      qed
      from n(1) a b c n(5) show ?thesis by (intro exI [of _ n]) simp
    qed
  qed
qed

fun calls :: "event list \<Rightarrow> nat list" where
  "calls [] = []"
| "calls (Called k # evs) = k # calls evs"
| "calls (_ # evs) = calls evs"

lemma isRateLimitError_iff:
  "isRateLimitError (ErrorObj msg)
     \<longleftrightarrow> (\<exists>needle \<in> set rateLimitNeedles. sublist needle (toLowerCase msg))"
  by (simp add: rateLimitNeedles_def str_includes_sublist Let_def del: map_map)


text \<open>
  C3 (amended). \<open>execute(fn)\<close> calls \<open>fn\<close> with retryCount 0, 1, ..., n and returns the
  outcome of the last call unchanged. Every call before the last failed with a
  rate-limit error and was followed by a delay of \<open>retryDelayMs * 2^retryCount\<close>; there
  are at most maxRetries retries, so at most maxRetries + 1 calls; a rate-limit error
  is the outcome only when the retries are used up. A first failure that is not a
  rate-limit error is the outcome. An \<open>Error\<close> is a rate-limit error iff its lowercased
  message contains one of the four needles; another thrown value never is.
\<close>

theorem execute_retries:
  "(\<exists>n. retryEvents (log (snd (snd (execute cfg fn 0 s))))
          = retryEvents (log (snd s)) @ concat (map (attempt cfg) [0..<n]) @ [Called n]
        \<and> int n \<le> max 0 (maxRetries cfg)
        \<and> fst (execute cfg fn 0 s) = fst (fn n)
        \<and> (\<forall>j < n. \<exists>err. fst (fn j) = Inl err \<and> isRateLimitError err)
        \<and> (\<forall>err. fst (fn n) = Inl err \<and> isRateLimitError err \<longrightarrow> maxRetries cfg \<le> int n))
   \<and> (\<forall>err. fst (fn 0) = Inl err \<and> \<not> isRateLimitError err \<longrightarrow>
         fst (execute cfg fn 0 s) = Inl err)
   \<and> (isRateLimitError (ErrorObj msg)
         \<longleftrightarrow> (\<exists>needle \<in> set rateLimitNeedles. sublist needle (toLowerCase msg)))
   \<and> \<not> isRateLimitError (Thrown v)"
proof -
  from execute_trace [of 0 cfg fn s] obtain n where
    a: "retryEvents (log (snd (snd (execute cfg fn 0 s))))
          = retryEvents (log (snd s)) @ concat (map (attempt cfg) [0..<n]) @ [Called n]"
    and b: "fst (execute cfg fn 0 s) = fst (fn n)"
    and c: "\<forall>j. 0 \<le> j \<and> j < n \<longrightarrow>
           (\<exists>err. fst (fn j) = Inl err \<and> isRateLimitError err) \<and> int j < maxRetries cfg"
    and d: "\<forall>err. fst (fn n) = Inl err \<and> isRateLimitError err \<longrightarrow> maxRetries cfg \<le> int n"
    by blast
  have bound: "int n \<le> max 0 (maxRetries cfg)"
  proof (cases n)
    case 0
    then show ?thesis by simp
  next
    case (Suc m)
    with c have "int m < maxRetries cfg" by simp
    with Suc show ?thesis by simp
  qed
  have c': "\<forall>j < n. \<exists>err. fst (fn j) = Inl err \<and> isRateLimitError err"
    using c by simp
  have first: "\<forall>err. fst (fn 0) = Inl err \<and> \<not> isRateLimitError err \<longrightarrow>
         fst (execute cfg fn 0 s) = Inl err"
  proof (intro allI impI)
    fix err assume e: "fst (fn 0) = Inl err \<and> \<not> isRateLimitError err"
    have "n = 0"
    proof (rule ccontr)
      assume "n \<noteq> 0"
      then have "0 < n" by simp
      with c' obtain err' where "fst (fn 0) = Inl err'" "isRateLimitError err'" by blast
      with e show False by simp
    qed
    with b e show "fst (execute cfg fn 0 s) = Inl err" by simp
  qed
  have main: "\<exists>n. retryEvents (log (snd (snd (execute cfg fn 0 s))))
          = retryEvents (log (snd s)) @ concat (map (attempt cfg) [0..<n]) @ [Called n]
        \<and> int n \<le> max 0 (maxRetries cfg)
        \<and> fst (execute cfg fn 0 s) = fst (fn n)
        \<and> (\<forall>j < n. \<exists>err. fst (fn j) = Inl err \<and> isRateLimitError err)
        \<and> (\<forall>err. fst (fn n) = Inl err \<and> isRateLimitError err \<longrightarrow> maxRetries cfg \<le> int n)"
    using a bound b c' d by blast
  have cls: "\<not> isRateLimitError (Thrown v)" by simp
  from main first isRateLimitError_iff [of msg] cls show ?thesis by blast
qed


definition fails_twice :: "nat thunk" where
  "fails_twice k = (if k < 2 then Inl (ErrorObj (js ''HTTP 429'')) else Inr 5, 7)"

definition always_429 :: "unit thunk" where
  "always_429 k = (Inl (ErrorObj (js ''429'')), 0)"

lemmas exec_eval = execute.simps toLowerCase_def

lemma fails_twice_run:
  "execute cfg_2_per_second fails_twice 0 (newRateLimiter, env0)
     = (Inr 5, \<lparr>requests = [103014], lastCleanup = 100000\<rparr>,
        \<lparr>clock = 103021, late = [],
         log = [Registered 100000, Called 0, BackedOff 1000, Registered 101007,
                Called 1, BackedOff 2000, Registered 103014, Called 2]\<rparr>)"
  by (simp add: rl_eval exec_eval cfg_2_per_second_def fails_twice_def)


theorem execute_retries_witness:
  "fst (execute cfg_2_per_second fails_twice 0 (newRateLimiter, env0)) = Inr 5
   \<and> fst (fails_twice 0) = Inl (ErrorObj (js ''HTTP 429''))
   \<and> isRateLimitError (ErrorObj (js ''HTTP 429''))
   \<and> (\<exists>n. [Called 0, BackedOff 1000, Called 1, BackedOff 2000, Called 2]
            = concat (map (attempt cfg_2_per_second) [0..<n]) @ [Called n]
          \<and> int n \<le> 3 \<and> Inr 5 = fst (fails_twice n))"
proof -
  have m: "max 0 (maxRetries cfg_2_per_second) = 3"
    by (simp add: cfg_2_per_second_def mkConfig_def)
  have l: "retryEvents (log (snd (snd (execute cfg_2_per_second fails_twice 0 (newRateLimiter, env0)))))
      = [Called 0, BackedOff 1000, Called 1, BackedOff 2000, Called 2]"
    "fst (execute cfg_2_per_second fails_twice 0 (newRateLimiter, env0)) = Inr 5"
    "retryEvents (log (snd (newRateLimiter, env0))) = []"
    by (simp_all add: fails_twice_run) (simp add: env0_def)
  have f: "fst (fails_twice 0) = Inl (ErrorObj (js ''HTTP 429''))"
    "isRateLimitError (ErrorObj (js ''HTTP 429''))"
    by (simp_all add: fails_twice_def toLowerCase_def)
  from execute_retries [of cfg_2_per_second fails_twice "(newRateLimiter, env0)" "[]" JOther]
  have "\<exists>n. [Called 0, BackedOff 1000, Called 1, BackedOff 2000, Called 2]
            = concat (map (attempt cfg_2_per_second) [0..<n]) @ [Called n]
          \<and> int n \<le> 3 \<and> Inr 5 = fst (fails_twice n)"
    unfolding l m by auto
  with l f show ?thesis by blast
qed


text \<open>
  With the default maxRetries 3, a function that always fails with "429" is called four
  times, not three.
\<close>

theorem execute_retries_counterexample:
  "\<not> int (length (calls (log (snd (snd
        (execute (mkConfig 60 60000 None None) always_429 0 (newRateLimiter, env0)))))))
      \<le> maxRetries (mkConfig 60 60000 None None)"
  by (simp add: rl_eval exec_eval always_429_def)

section \<open>Validator.validateTaskDescription (src/utils/rate-limiter.ts, lines 197-227)\<close>

text \<open>\<open>new ValidationError(message, field)\<close>.\<close>

datatype validation_error = ValidationError jsstring jsstring

text \<open>
  The white space and line terminators that \<open>trim()\<close> strips and \<open>\s\<close> matches:
  U+0009-U+000D, U+0020, U+00A0, U+1680, U+2000-U+200A, U+2028, U+2029, U+202F, U+205F,
  U+3000, U+FEFF.
\<close>

definition isWhiteSpace :: "code_unit \<Rightarrow> bool" where
  "isWhiteSpace c \<longleftrightarrow>
     c \<in> {9, 10, 11, 12, 13, 32, 160, 5760, 8232, 8233, 8239, 8287, 12288, 65279}
     \<or> (8192 \<le> c \<and> c \<le> 8202)"

definition trim :: "jsstring \<Rightarrow> jsstring" where
  "trim s = rev (dropWhile isWhiteSpace (rev (dropWhile isWhiteSpace s)))"

text \<open>
  The five regular expressions, each as the test "the expression matches at the start of
  \<open>s\<close>"; \<open>test\<close> tries every start. Every literal is fresh in each call, so its
  \<open>lastIndex\<close> is 0 and the flag \<open>g\<close> changes nothing. Under the flag \<open>i\<close> (without
  \<open>u\<close>) a character beyond ASCII never matches an ASCII letter, so folding A-Z is exact.
  \<open>\b\<close> after \<open><script\<close> asks that no word character \<open>[A-Za-z0-9_]\<close> follows.
\<close>

definition isWordChar :: "code_unit \<Rightarrow> bool" where
  "isWordChar c \<longleftrightarrow> (48 \<le> c \<and> c \<le> 57) \<or> (65 \<le> c \<and> c \<le> 90) \<or> c = 95 \<or> (97 \<le> c \<and> c \<le> 122)"

definition ci_prefix :: "jsstring \<Rightarrow> jsstring \<Rightarrow> bool" where
  "ci_prefix lit s \<longleftrightarrow> prefix lit (toLowerCase s)"

text \<open>
  \<open>[^<]*(?:(?!<\/script>)<[^<]*)*<\/script>\<close>: characters other than \<open><\<close> are consumed;
  at a \<open><\<close> that starts \<open></script>\<close> the expression is matched, any other \<open><\<close> is
  consumed by the group; at the end of the string nothing closes the tag.
\<close>

fun scriptBody :: "jsstring \<Rightarrow> bool" where
  "scriptBody [] = False"
| "scriptBody (c # cs) =
     (if c = 60 \<and> ci_prefix (js ''</script>'') (c # cs) then True else scriptBody cs)"

definition scriptAt :: "jsstring \<Rightarrow> bool" where
  "scriptAt s \<longleftrightarrow>
     ci_prefix (js ''<script'') s
     \<and> (case drop 7 s of [] \<Rightarrow> True | c # _ \<Rightarrow> \<not> isWordChar c)
     \<and> scriptBody (drop 7 s)"

text \<open>\<open>eval\s*\(\<close> and \<open>function\s*\(\<close>: the name, white space, an opening parenthesis (40).\<close>

definition callAt :: "jsstring \<Rightarrow> jsstring \<Rightarrow> bool" where
  "callAt name s \<longleftrightarrow>
     ci_prefix name s
     \<and> (case dropWhile isWhiteSpace (drop (length name) s) of [] \<Rightarrow> False | c # _ \<Rightarrow> c = 40)"

fun test :: "(jsstring \<Rightarrow> bool) \<Rightarrow> jsstring \<Rightarrow> bool" where
  "test pattern [] = pattern []"
| "test pattern (c # cs) = (pattern (c # cs) \<or> test pattern cs)"

definition suspiciousPatterns :: "(jsstring \<Rightarrow> bool) list" where
  "suspiciousPatterns =
     [scriptAt,
      ci_prefix (js ''javascript:''),
      ci_prefix (js ''data:text/html''),
      callAt (js ''eval''),
      callAt (js ''function'')]"

definition validateTaskDescription :: "js_value \<Rightarrow> validation_error + jsstring" where
  "validateTaskDescription description =
     (case description of
        JOther \<Rightarrow> Inl (ValidationError (js ''Task description is required and must be a string'')
                                       (js ''description''))
      | JString d \<Rightarrow>
          if d = [] then
            Inl (ValidationError (js ''Task description is required and must be a string'')
                                 (js ''description''))
          else
            let trimmed = trim d in
            if length trimmed = 0 then
              Inl (ValidationError (js ''Task description cannot be empty'') (js ''description''))
            else if length trimmed > 10000 then
              Inl (ValidationError (js ''Task description cannot exceed 10,000 characters'')
                                   (js ''description''))
            else if list_ex (\<lambda>pattern. test pattern trimmed) suspiciousPatterns then
              Inl (ValidationError (js ''Task description contains potentially unsafe content'')
                                   (js ''description''))
            else Inr trimmed)"


subsection \<open>Descriptions made of the letter a\<close>

lemma toLowerCase_replicate_a: "toLowerCase (replicate n 97) = replicate n 97"
  by (simp add: toLowerCase_def)

lemma no_ci_prefix_a:
  assumes "lit = c # cs" and "c \<noteq> 97"
  shows "\<not> ci_prefix lit (replicate n 97)"
proof
  assume "ci_prefix lit (replicate n 97)"
  then have "prefix (c # cs) (replicate n 97)"
    by (simp add: ci_prefix_def toLowerCase_replicate_a assms(1))
  then have "c \<in> set (replicate n 97)"
    by (metis list.set_intros(1) prefix_def set_append UnCI)
  with assms(2) show False by simp
qed

lemma test_replicate_a:
  assumes "\<And>m. \<not> p (replicate m 97)"
  shows "\<not> test p (replicate n 97)"
proof (induction n)
  case 0
  from assms [of 0] show ?case by simp
next
  case (Suc n)
  from assms [of "Suc n"] Suc show ?case by simp
qed

lemma no_pattern_a:
  "\<not> list_ex (\<lambda>pattern. test pattern (replicate n 97)) suspiciousPatterns"
proof -
  have 1: "\<not> test scriptAt (replicate n 97)"
    by (rule test_replicate_a) (simp add: scriptAt_def no_ci_prefix_a)
  have 2: "\<not> test (ci_prefix (js ''javascript:'')) (replicate n 97)"
    by (rule test_replicate_a) (simp add: no_ci_prefix_a)
  have 3: "\<not> test (ci_prefix (js ''data:text/html'')) (replicate n 97)"
    by (rule test_replicate_a) (simp add: no_ci_prefix_a)
  have 4: "\<not> test (callAt (js ''eval'')) (replicate n 97)"
    by (rule test_replicate_a) (simp add: callAt_def no_ci_prefix_a)
  have 5: "\<not> test (callAt (js ''function'')) (replicate n 97)"
    by (rule test_replicate_a) (simp add: callAt_def no_ci_prefix_a)
  from 1 2 3 4 5 show ?thesis by (simp add: suspiciousPatterns_def)
qed

lemma trim_replicate_a: "trim (replicate n 97) = replicate n 97"
proof -
  have "\<not> isWhiteSpace 97" by (simp add: isWhiteSpace_def)
  then have "dropWhile isWhiteSpace (replicate n 97) = replicate n 97"
    by (cases n) simp_all
  then show ?thesis using \<open>\<not> isWhiteSpace 97\<close> by (simp add: trim_def)
qed

subsection \<open>Acceptance and rejection\<close>

definition rejects :: "jsstring \<Rightarrow> bool" where
  "rejects d \<longleftrightarrow>
     d = [] \<or> trim d = [] \<or> length (trim d) > 10000
     \<or> (\<exists>pattern \<in> set suspiciousPatterns. test pattern (trim d))"

lemma validate_string:
  "validateTaskDescription (JString d)
     = (if rejects d then validateTaskDescription (JString d) else Inr (trim d))"
  by (simp add: validateTaskDescription_def rejects_def list_ex_iff Let_def)

lemma validate_rejects:
  "rejects d \<Longrightarrow> \<exists>msg. validateTaskDescription (JString d) = Inl (ValidationError msg (js ''description''))"
  unfolding validateTaskDescription_def rejects_def list_ex_iff Let_def js_value.case
  by (auto simp del: map_map list.map)

text \<open>
  C8. validateTaskDescription raises ValidationError iff its argument is not a string,
  is the empty string, or its trimmed form is empty, is longer than 10 000 code units or
  is matched by one of the five patterns (\<open><script ...>...</script>\<close>, \<open>javascript:\<close>,
  \<open>data:text/html\<close>, \<open>eval(\<close>, \<open>function(\<close>, whatever the case of the letters); otherwise
  it returns the trimmed description. A description of 10 000 letters is accepted, one
  of 10 001 is rejected.
\<close>

theorem validateTaskDescription_iff:
  "((\<exists>e. validateTaskDescription v = Inl e)
      \<longleftrightarrow> (case v of JOther \<Rightarrow> True
                   | JString d \<Rightarrow> d = [] \<or> trim d = [] \<or> length (trim d) > 10000
                       \<or> (\<exists>pattern \<in> set suspiciousPatterns. test pattern (trim d))))
   \<and> (\<forall>d. v = JString d \<and> (\<forall>e. validateTaskDescription v \<noteq> Inl e)
          \<longrightarrow> validateTaskDescription v = Inr (trim d))
   \<and> validateTaskDescription (JString (replicate 10000 97)) = Inr (replicate 10000 97)
   \<and> (\<exists>e. validateTaskDescription (JString (replicate 10001 97)) = Inl e)"
proof (intro conjI)
  show "(\<exists>e. validateTaskDescription v = Inl e)
      \<longleftrightarrow> (case v of JOther \<Rightarrow> True
                   | JString d \<Rightarrow> d = [] \<or> trim d = [] \<or> length (trim d) > 10000
                       \<or> (\<exists>pattern \<in> set suspiciousPatterns. test pattern (trim d)))"
  proof (cases v)
    case JOther
    then show ?thesis by (simp add: validateTaskDescription_def)
  next
    case (JString d)
    show ?thesis
    proof (cases "rejects d")
      case True
      with validate_rejects [OF True] JString show ?thesis
        by (auto simp: rejects_def)
    next
      case False
      then have "validateTaskDescription (JString d) = Inr (trim d)"
        by (subst validate_string) simp
      with False JString show ?thesis by (simp add: rejects_def)
    qed
  qed
  show "\<forall>d. v = JString d \<and> (\<forall>e. validateTaskDescription v \<noteq> Inl e)
          \<longrightarrow> validateTaskDescription v = Inr (trim d)"
  proof (intro allI impI)
    fix d assume h: "v = JString d \<and> (\<forall>e. validateTaskDescription v \<noteq> Inl e)"
    then have "\<not> rejects d" using validate_rejects [of d] by auto
    then have "validateTaskDescription (JString d) = Inr (trim d)"
      by (subst validate_string) simp
    with h show "validateTaskDescription v = Inr (trim d)" by simp
  qed
  have "\<not> rejects (replicate 10000 97)"
    using no_pattern_a [of 10000] by (simp add: rejects_def trim_replicate_a list_ex_iff)
  then show "validateTaskDescription (JString (replicate 10000 97)) = Inr (replicate 10000 97)"
    by (subst validate_string) (simp add: trim_replicate_a)
  have "rejects (replicate 10001 97)"
    by (simp add: rejects_def trim_replicate_a)
  from validate_rejects [OF this]
  show "\<exists>e. validateTaskDescription (JString (replicate 10001 97)) = Inl e" by blast
qed

theorem validateTaskDescription_iff_witness:
  "validateTaskDescription (JString (js ''  Build it  '')) = Inr (js ''Build it'')
   \<and> (\<exists>e. validateTaskDescription (JString (js ''x = EVAL  (y)'')) = Inl e)"
proof -
  have t: "trim (js ''x = EVAL  (y)'') = js ''x = EVAL  (y)''"
    by (simp add: trim_def isWhiteSpace_def)
  have ok: "validateTaskDescription (JString (js ''  Build it  '')) = Inr (js ''Build it'')"
    by (simp add: validateTaskDescription_def trim_def Let_def suspiciousPatterns_def
        scriptAt_def callAt_def ci_prefix_def toLowerCase_def isWhiteSpace_def)
  have bad: "test (callAt (js ''eval'')) (js ''x = EVAL  (y)'')"
    by (simp add: callAt_def ci_prefix_def toLowerCase_def isWhiteSpace_def)
  then have "\<exists>pattern \<in> set suspiciousPatterns. test pattern (trim (js ''x = EVAL  (y)''))"
    unfolding t by (simp add: suspiciousPatterns_def)
  with validateTaskDescription_iff [of "JString (js ''x = EVAL  (y)'')"]
  have "\<exists>e. validateTaskDescription (JString (js ''x = EVAL  (y)'')) = Inl e"
    by simp
  with ok show ?thesis by blast
qed

section \<open>PathSecurity.resolveSafePath (src/utils/path-security.ts, lines 22-134)\<close>

text \<open>
  The file system and Node's \<open>path\<close> module are outside the program: the function is
  modelled over any of them. \<open>realpath\<close> and \<open>stat\<close> give \<open>None\<close> where the call throws,
  \<open>readable\<close> and \<open>writable\<close> say whether \<open>fs.access\<close> succeeds. The file system does not
  change during one call.
\<close>

record fs_stats =
  isFile :: bool
  size_bytes :: int

record file_system =
  realpath :: "jsstring \<Rightarrow> jsstring option"
  stat :: "jsstring \<Rightarrow> fs_stats option"
  readable :: "jsstring \<Rightarrow> bool"
  writable :: "jsstring \<Rightarrow> bool"

record path_module =
  normalize :: "jsstring \<Rightarrow> jsstring"
  resolve :: "jsstring \<Rightarrow> jsstring \<Rightarrow> jsstring"
  extname :: "jsstring \<Rightarrow> jsstring"
  sep :: jsstring

text \<open>The options object; \<open>None\<close> is a missing field, which takes its default.\<close>

record path_options =
  mustExist :: "bool option"
  maxSize :: "int option"
  allowedExtensions :: "jsstring list option"
  requireReadable :: "bool option"
  requireWritable :: "bool option"

text \<open>
  What the function throws: a PathSecurityError, one constructor for each \<open>throw\<close> of the
  source, or the error of \<open>fs.realpath\<close> itself, which the \<open>catch\<close> block lets through
  when \<open>mustExist\<close> is false.
\<close>

datatype path_error =
    NotANonEmptyString
  | PathDoesNotExist
  | PathTraversalAttempt
  | NotARegularFile
  | FileTooLarge
  | ExtensionNotAllowed
  | FileNotReadable
  | FileNotWritable
  | CannotAccessFile
  | RealpathError

definition startsWith :: "jsstring \<Rightarrow> jsstring \<Rightarrow> bool" where
  "startsWith s p \<longleftrightarrow> prefix p s"

text \<open>
  The block \<open>if (mustExist) { try { ... } catch { ... } }\<close>: \<open>None\<close> when every check
  passes. A failing \<open>fs.stat\<close> is caught and rethrown as "Cannot access file".
\<close>

definition checkExisting ::
  "path_module \<Rightarrow> file_system \<Rightarrow> jsstring \<Rightarrow> int \<Rightarrow> jsstring list option \<Rightarrow> bool \<Rightarrow> bool
     \<Rightarrow> path_error option" where
  "checkExisting pm fs realPath maxSz exts needR needW =
     (case stat fs realPath of
        None \<Rightarrow> Some CannotAccessFile
      | Some stats \<Rightarrow>
          if \<not> isFile stats then Some NotARegularFile
          else if maxSz \<noteq> 0 \<and> size_bytes stats > maxSz then Some FileTooLarge
          else if (case exts of
                     None \<Rightarrow> False
                   | Some es \<Rightarrow>
                       length es > 0
                       \<and> toLowerCase (extname pm realPath)
                           \<notin> set (map (\<lambda>e. if startsWith e (js ''.'') then toLowerCase e
                                           else js ''.'' @ toLowerCase e) es))
               then Some ExtensionNotAllowed
          else if needR \<and> \<not> readable fs realPath then Some FileNotReadable
          else if needW \<and> \<not> writable fs realPath then Some FileNotWritable
          else None)"

definition resolveSafePath ::
  "path_module \<Rightarrow> file_system \<Rightarrow> js_value \<Rightarrow> jsstring \<Rightarrow> path_options \<Rightarrow> path_error + jsstring"
where
  "resolveSafePath pm fs inputPath baseDir options =
     (let must = (case mustExist options of None \<Rightarrow> True | Some b \<Rightarrow> b);
          maxSz = (case maxSize options of None \<Rightarrow> 10 * 1024 * 1024 | Some n \<Rightarrow> n);
          needR = (case requireReadable options of None \<Rightarrow> True | Some b \<Rightarrow> b);
          needW = (case requireWritable options of None \<Rightarrow> False | Some b \<Rightarrow> b)
      in case inputPath of
           JOther \<Rightarrow> Inl NotANonEmptyString
         | JString p \<Rightarrow>
             if p = [] then Inl NotANonEmptyString
             else
               let normalizedPath = normalize pm p;
                   resolvedPath = resolve pm baseDir normalizedPath
               in case realpath fs baseDir of
                    None \<Rightarrow> if must then Inl PathDoesNotExist else Inl RealpathError
                  | Some realBaseDir \<Rightarrow>
                      (case (if must then realpath fs resolvedPath else Some resolvedPath) of
                         None \<Rightarrow> Inl PathDoesNotExist
                       | Some realPath \<Rightarrow>
                           if \<not> startsWith realPath (realBaseDir @ sep pm) \<and> realPath \<noteq> realBaseDir
                           then Inl PathTraversalAttempt
                           else if must then
                             (case checkExisting pm fs realPath maxSz
                                     (allowedExtensions options) needR needW of
                                Some err \<Rightarrow> Inl err
                              | None \<Rightarrow> Inr realPath)
                           else Inr realPath))"

text \<open>
  C9. Whenever resolveSafePath returns a path, the real path of the base directory
  exists and the returned path is that real base directory or begins with it followed
  by the path separator, whatever the input path, the base directory, the options and
  the file system. Unless \<open>mustExist\<close> is false, the path returned and compared is the
  one \<open>fs.realpath\<close> gives for the resolved input, so a path reached through symbolic
  links is returned only when the file it leads to is inside the base directory. When
  \<open>mustExist\<close> is false the path returned and compared is the resolved path itself:
  \<open>fs.realpath\<close> is not called on it, the containment is one of strings, and the
  symbolic links on the way are not followed.
\<close>

theorem resolveSafePath_contained:
  assumes "resolveSafePath pm fs inputPath baseDir options = Inr p"
  shows "\<exists>realBaseDir q.
           realpath fs baseDir = Some realBaseDir
           \<and> (p = realBaseDir \<or> prefix (realBaseDir @ sep pm) p)
           \<and> inputPath = JString q
           \<and> (if mustExist options = Some False
               then p = resolve pm baseDir (normalize pm q)
               else realpath fs (resolve pm baseDir (normalize pm q)) = Some p)"
proof -
  from assms obtain q where q: "inputPath = JString q" "q \<noteq> []"
    by (cases inputPath) (auto simp: resolveSafePath_def Let_def split: if_splits)
  from assms q obtain rb where rb: "realpath fs baseDir = Some rb"
    by (cases "realpath fs baseDir") (auto simp: resolveSafePath_def Let_def split: if_splits)
  let ?must = "case mustExist options of None \<Rightarrow> True | Some b \<Rightarrow> b"
  let ?res = "resolve pm baseDir (normalize pm q)"
  from assms q rb obtain rp where rp: "(if ?must then realpath fs ?res else Some ?res) = Some rp"
    by (cases "if ?must then realpath fs ?res else Some ?res")
       (auto simp: resolveSafePath_def Let_def split: if_splits)
  have inside: "startsWith rp (rb @ sep pm) \<or> rp = rb"
  proof (rule ccontr)
    assume "\<not> (startsWith rp (rb @ sep pm) \<or> rp = rb)"
    with assms q rb rp show False
      unfolding resolveSafePath_def Let_def by simp
  qed
  have p: "p = rp"
    using assms q rb rp inside unfolding resolveSafePath_def Let_def
    by (simp split: if_splits option.splits)
  have must: "?must \<longleftrightarrow> mustExist options \<noteq> Some False"
    by (cases "mustExist options") auto
  have "if mustExist options = Some False then p = ?res else realpath fs ?res = Some p"
    using rp p must by (simp split: if_splits)
  with inside rb q(1) p show ?thesis by (auto simp: startsWith_def)
qed

subsection \<open>A file system with a symbolic link\<close>

text \<open>
  \<open>/base/a.txt\<close> is a regular file; \<open>/base/link\<close> is a symbolic link to the directory
  \<open>/etc\<close>, so that \<open>/base/link/passwd\<close> is the file \<open>/etc/passwd\<close>.
\<close>

definition posix :: path_module where
  "posix = \<lparr>normalize = (\<lambda>p. p), resolve = (\<lambda>b p. b @ js ''/'' @ p),
            extname = (\<lambda>p. js ''.txt''), sep = js ''/''\<rparr>"

definition disk :: file_system where
  "disk = \<lparr>realpath = (\<lambda>p. if p = js ''/base'' \<or> p = js ''/base/a.txt'' then Some p
                            else if p = js ''/base/link'' then Some (js ''/etc'')
                            else if p = js ''/base/link/passwd'' then Some (js ''/etc/passwd'')
                            else None),
           stat = (\<lambda>p. Some \<lparr>isFile = True, size_bytes = 10\<rparr>),
           readable = (\<lambda>p. True),
           writable = (\<lambda>p. False)\<rparr>"

definition defaults :: path_options where
  "defaults = \<lparr>mustExist = None, maxSize = None, allowedExtensions = None,
               requireReadable = None, requireWritable = None\<rparr>"

theorem resolveSafePath_contained_witness:
  "resolveSafePath posix disk (JString (js ''a.txt'')) (js ''/base'') defaults = Inr (js ''/base/a.txt'')
   \<and> resolveSafePath posix disk (JString (js ''link'')) (js ''/base'') defaults = Inl PathTraversalAttempt
   \<and> (\<exists>realBaseDir. realpath disk (js ''/base'') = Some realBaseDir
          \<and> prefix (realBaseDir @ sep posix) (js ''/base/a.txt''))"
proof -
  have a: "resolveSafePath posix disk (JString (js ''a.txt'')) (js ''/base'') defaults
             = Inr (js ''/base/a.txt'')"
    by (simp add: resolveSafePath_def checkExisting_def posix_def disk_def defaults_def
        startsWith_def Let_def)
  have b: "resolveSafePath posix disk (JString (js ''link'')) (js ''/base'') defaults
             = Inl PathTraversalAttempt"
    by (simp add: resolveSafePath_def checkExisting_def posix_def disk_def defaults_def
        startsWith_def Let_def)
  from resolveSafePath_contained [OF a]
  obtain rb where rb: "realpath disk (js ''/base'') = Some rb"
    and c: "js ''/base/a.txt'' = rb \<or> prefix (rb @ sep posix) (js ''/base/a.txt'')"
    by blast
  from rb have "rb = js ''/base''" by (simp add: disk_def)
  with c have "prefix (rb @ sep posix) (js ''/base/a.txt'')" by (simp add: posix_def)
  with a b rb show ?thesis by blast
qed

text \<open>
  With \<open>mustExist\<close> false the input \<open>link/passwd\<close> under \<open>/base\<close> is accepted and
  \<open>/base/link/passwd\<close> is returned: the string begins with \<open>/base/\<close>, but the file it
  names is \<open>/etc/passwd\<close>, which is neither the base directory nor under it.
\<close>

theorem resolveSafePath_contained_counterexample:
  "resolveSafePath posix disk (JString (js ''link/passwd'')) (js ''/base'')
       (defaults\<lparr>mustExist := Some False\<rparr>) = Inr (js ''/base/link/passwd'')
   \<and> realpath disk (js ''/base'') = Some (js ''/base'')
   \<and> realpath disk (js ''/base/link/passwd'') = Some (js ''/etc/passwd'')
   \<and> js ''/etc/passwd'' \<noteq> js ''/base''
   \<and> \<not> prefix (js ''/base'' @ sep posix) (js ''/etc/passwd'')"
  by (simp add: resolveSafePath_def posix_def disk_def defaults_def startsWith_def Let_def)

section \<open>Task queue (spec section 4.C; src/core/task-queue.ts is not among the sources)\<close>

text \<open>
  Modelled from the spec: the Task record of section 3 (the source of the queue and
  src/types are missing). Priority rank: high = 3, medium = 2, low = 1.
\<close>

datatype priority = High | Medium | Low

text \<open>Modelled from the spec: the status of a task, "pending, running, completed, failed".\<close>

datatype task_status = Pending | Running | Completed | Failed

text \<open>Modelled from the spec: the fields of a Task; \<open>taskId\<close> is its \<open>id\<close>, the dates are in milliseconds.\<close>

record task =
  taskId :: jsstring
  description :: jsstring
  mode :: jsstring
  priority :: priority
  dependencies :: "jsstring list"
  status :: task_status
  createdAt :: int
  updatedAt :: int

text \<open>Modelled from the spec: "Priority rank: high=3, medium=2, low=1."\<close>

fun priorityRank :: "priority \<Rightarrow> nat" where
  "priorityRank High = 3"
| "priorityRank Medium = 2"
| "priorityRank Low = 1"

text \<open>
  Modelled from the spec: the queue state, "a mapping id -> Task" with insertion order;
  here the tasks in insertion order, looked up by id.
\<close>

type_synonym task_queue = "task list"

text \<open>Modelled from the spec: \<open>getById(id)\<close>, "lookup (any status)".\<close>

definition getById :: "task_queue \<Rightarrow> jsstring \<Rightarrow> task option" where
  "getById q i = find (\<lambda>t. taskId t = i) q"

text \<open>Modelled from the spec: \<open>add(task)\<close> "inserts or overwrites by id".\<close>

definition add :: "task \<Rightarrow> task_queue \<Rightarrow> task_queue" where
  "add t q =
     (if getById q (taskId t) = None then q @ [t]
      else map (\<lambda>u. if taskId u = taskId t then t else u) q)"

text \<open>
  Modelled from the spec: dependency gating. "A task t is eligible iff every id in
  t.dependencies resolves within the queue to a task in completed status"; getNext
  "selects among tasks whose status is pending and whose dependency set is satisfied".
\<close>

definition dependenciesMet :: "task_queue \<Rightarrow> task \<Rightarrow> bool" where
  "dependenciesMet q t =
     list_all (\<lambda>d. case getById q d of None \<Rightarrow> False | Some p \<Rightarrow> status p = Completed)
       (dependencies t)"

text \<open>Modelled from the spec: the tasks getNext selects among, "whose status is pending and whose
  dependency set is satisfied".\<close>

definition eligible :: "task_queue \<Rightarrow> task \<Rightarrow> bool" where
  "eligible q t \<longleftrightarrow> status t = Pending \<and> dependenciesMet q t"

text \<open>
  Modelled from the spec: "Among eligible tasks, returns the one with highest priority
  rank; ties broken by earliest createdAt." \<open>precedes a b\<close>: \<open>a\<close> is to be returned
  rather than \<open>b\<close>; \<open>pick\<close> scans the eligible tasks in insertion order and keeps the
  first task that no other precedes.
\<close>

definition precedes :: "task \<Rightarrow> task \<Rightarrow> bool" where
  "precedes a b \<longleftrightarrow>
     priorityRank (priority a) > priorityRank (priority b)
     \<or> (priorityRank (priority a) = priorityRank (priority b) \<and> createdAt a < createdAt b)"

text \<open>Modelled from the spec: the choice among the eligible tasks, by \<open>precedes\<close>.\<close>

fun pick :: "task \<Rightarrow> task list \<Rightarrow> task" where
  "pick best [] = best"
| "pick best (t # ts) = pick (if precedes t best then t else best) ts"

text \<open>
  Modelled from the spec: \<open>getNext()\<close>. "On return, atomically transitions the chosen
  task to running. If no eligible task exists, returns null." The result is the task
  returned (\<open>None\<close> for null) and the queue after the call.
\<close>

definition getNext :: "task_queue \<Rightarrow> task option \<times> task_queue" where
  "getNext q =
     (case filter (eligible q) q of
        [] \<Rightarrow> (None, q)
      | t # ts \<Rightarrow>
          let chosen = (pick t ts)\<lparr>status := Running\<rparr>
          in (Some chosen, map (\<lambda>u. if taskId u = taskId chosen then chosen else u) q))"

text \<open>
  Modelled from the spec: \<open>cleanup(maxAgeMs)\<close> "removes tasks in completed status whose
  createdAt is older than now - maxAgeMs".
\<close>

definition cleanup :: "int \<Rightarrow> int \<Rightarrow> task_queue \<Rightarrow> task_queue" where
  "cleanup now maxAgeMs q =
     filter (\<lambda>t. \<not> (status t = Completed \<and> createdAt t < now - maxAgeMs)) q"

text \<open>
  Modelled from the spec: the scheduler's marks. Status transitions follow
  "pending -> running -> (completed | failed)" and only the scheduler mutates a task:
  it marks completed or failed the task of an agent it spawned, a running task.
\<close>

definition mark :: "jsstring \<Rightarrow> task_status \<Rightarrow> task_queue \<Rightarrow> task_queue" where
  "mark i s q = map (\<lambda>u. if taskId u = i \<and> status u = Running then u\<lparr>status := s\<rparr> else u) q"

text \<open>Modelled from the spec: the operations on a queue: those of its public contract that change it,
  and the two marks of the scheduler.\<close>

datatype queue_op =
    Add task
  | GetNext
  | MarkCompleted jsstring
  | MarkFailed jsstring
  | Cleanup int int

text \<open>Modelled from the spec: what each operation does to the queue.\<close>

fun apply_op :: "task_queue \<Rightarrow> queue_op \<Rightarrow> task_queue" where
  "apply_op q (Add t) = add t q"
| "apply_op q GetNext = snd (getNext q)"
| "apply_op q (MarkCompleted i) = mark i Completed q"
| "apply_op q (MarkFailed i) = mark i Failed q"
| "apply_op q (Cleanup now maxAgeMs) = cleanup now maxAgeMs q"

text \<open>Modelled from the spec: a queue after a sequence of operations.\<close>

definition run_ops :: "task_queue \<Rightarrow> queue_op list \<Rightarrow> task_queue" where
  "run_ops q ops = foldl apply_op q ops"

subsection \<open>Selection\<close>

lemma pick_mem: "pick b ts \<in> set (b # ts)"
  by (induction ts arbitrary: b) auto

lemma precedes_trans: "precedes a b \<Longrightarrow> precedes b c \<Longrightarrow> precedes a c"
  by (auto simp: precedes_def)

lemma precedes_neg_trans: "\<not> precedes a b \<Longrightarrow> \<not> precedes b c \<Longrightarrow> \<not> precedes a c"
  by (auto simp: precedes_def)

lemma pick_best: "u \<in> set (b # ts) \<Longrightarrow> \<not> precedes u (pick b ts)"
proof (induction ts arbitrary: b u)
  case Nil
  then show ?case by (simp add: precedes_def)
next
  case (Cons t ts)
  let ?b' = "if precedes t b then t else b"
  have m: "\<not> precedes ?b' (pick ?b' ts)" using Cons.IH [of ?b' ?b'] by simp
  show ?case
  proof (cases "u \<in> set (?b' # ts)")
    case True
    then show ?thesis using Cons.IH [of u ?b'] by simp
  next
    case False
    show ?thesis
    proof (cases "precedes t b")
      case True
      with False Cons.prems have "u = b" by auto
      with True m show ?thesis
        by (auto dest: precedes_trans)
    next
      case nt: False
      with False Cons.prems have "u = t" by auto
      with nt m precedes_neg_trans [of t b "pick b ts"] show ?thesis by simp
    qed
  qed
qed

lemma getById_map_other:
  "i \<noteq> taskId c \<Longrightarrow> getById (map (\<lambda>u. if taskId u = taskId c then c else u) q) i = getById q i"
  unfolding getById_def by (induction q) auto

lemma getById_map_same:
  "t \<in> set q \<Longrightarrow> taskId t = taskId c \<Longrightarrow>
   getById (map (\<lambda>u. if taskId u = taskId c then c else u) q) (taskId c) = Some c"
  unfolding getById_def by (induction q) auto

lemma eligible_iff:
  "eligible q t \<longleftrightarrow>
     status t = Pending
     \<and> (\<forall>d \<in> set (dependencies t). \<exists>p. getById q d = Some p \<and> status p = Completed)"
  by (auto simp: eligible_def dependenciesMet_def list_all_iff split: option.splits)

lemma getNext_None: "filter (eligible q) q = [] \<Longrightarrow> getNext q = (None, q)"
  by (simp add: getNext_def)

lemma getNext_Some:
  assumes "filter (eligible q) q = t # ts"
  shows "getNext q =
           (Some ((pick t ts)\<lparr>status := Running\<rparr>),
            map (\<lambda>u. if taskId u = taskId (pick t ts) then (pick t ts)\<lparr>status := Running\<rparr> else u) q)"
  using assms by (simp add: getNext_def Let_def)

lemma getNext_chosen:
  assumes "\<exists>u \<in> set q. eligible q u"
  shows "\<exists>c \<in> set q. eligible q c
           \<and> (\<forall>u \<in> set q. eligible q u \<longrightarrow> \<not> precedes u c)
           \<and> getNext q =
               (Some (c\<lparr>status := Running\<rparr>),
                map (\<lambda>u. if taskId u = taskId c then c\<lparr>status := Running\<rparr> else u) q)"
proof -
  from assms have "filter (eligible q) q \<noteq> []" by (simp add: filter_empty_conv)
  then obtain t ts where f: "filter (eligible q) q = t # ts"
    by (cases "filter (eligible q) q") auto
  let ?c = "pick t ts"
  have "?c \<in> set (filter (eligible q) q)" unfolding f by (rule pick_mem)
  then have c: "?c \<in> set q" "eligible q ?c" by auto
  have best: "\<forall>u \<in> set q. eligible q u \<longrightarrow> \<not> precedes u ?c"
  proof (intro ballI impI)
    fix u assume "u \<in> set q" "eligible q u"
    then have "u \<in> set (t # ts)" unfolding f [symmetric] by simp
    then show "\<not> precedes u ?c" by (rule pick_best)
  qed
  from c best getNext_Some [OF f] show ?thesis by blast
qed

text \<open>
  C1. A task is eligible iff it is pending and each id of its dependencies resolves in
  the queue to a completed task (a missing id makes it ineligible). getNext returns
  null, leaving the queue as it is, when no task is eligible. Otherwise it returns an
  eligible task of the highest priority rank (high 3, medium 2, low 1) and, within that
  rank, of the earliest createdAt; the task returned has status running, the queue
  holds it under its id with that status, and no other task has changed.
\<close>

theorem getNext_selects:
  "(eligible q t \<longleftrightarrow>
      status t = Pending
      \<and> (\<forall>d \<in> set (dependencies t). \<exists>p. getById q d = Some p \<and> status p = Completed))
   \<and> priorityRank High = 3 \<and> priorityRank Medium = 2 \<and> priorityRank Low = 1
   \<and> ((\<forall>u \<in> set q. \<not> eligible q u) \<longrightarrow> getNext q = (None, q))
   \<and> ((\<exists>u \<in> set q. eligible q u) \<longrightarrow>
        (\<exists>c \<in> set q.
           eligible q c
           \<and> (\<forall>u \<in> set q. eligible q u \<longrightarrow>
                 priorityRank (priority u) < priorityRank (priority c)
                 \<or> (priorityRank (priority u) = priorityRank (priority c)
                     \<and> createdAt c \<le> createdAt u))
           \<and> fst (getNext q) = Some (c\<lparr>status := Running\<rparr>)
           \<and> status (c\<lparr>status := Running\<rparr>) = Running
           \<and> getById (snd (getNext q)) (taskId c) = Some (c\<lparr>status := Running\<rparr>)
           \<and> (\<forall>i. i \<noteq> taskId c \<longrightarrow> getById (snd (getNext q)) i = getById q i)))"
proof (intro conjI impI)
  show "eligible q t \<longleftrightarrow>
      status t = Pending
      \<and> (\<forall>d \<in> set (dependencies t). \<exists>p. getById q d = Some p \<and> status p = Completed)"
    by (rule eligible_iff)
  show "priorityRank High = 3" "priorityRank Medium = 2" "priorityRank Low = 1" by simp_all
next
  assume "\<forall>u \<in> set q. \<not> eligible q u"
  then have "filter (eligible q) q = []" by (simp add: filter_empty_conv)
  then show "getNext q = (None, q)" by (rule getNext_None)
next
  assume "\<exists>u \<in> set q. eligible q u"
  from getNext_chosen [OF this] obtain c where c: "c \<in> set q" "eligible q c"
    and best: "\<forall>u \<in> set q. eligible q u \<longrightarrow> \<not> precedes u c"
    and g: "getNext q =
               (Some (c\<lparr>status := Running\<rparr>),
                map (\<lambda>u. if taskId u = taskId c then c\<lparr>status := Running\<rparr> else u) q)"
    by blast
  let ?c' = "c\<lparr>status := Running\<rparr>"
  have id: "taskId ?c' = taskId c" by simp
  have 1: "\<forall>u \<in> set q. eligible q u \<longrightarrow>
                 priorityRank (priority u) < priorityRank (priority c)
                 \<or> (priorityRank (priority u) = priorityRank (priority c)
                     \<and> createdAt c \<le> createdAt u)"
    using best by (auto simp: precedes_def)
  have 2: "getById (snd (getNext q)) (taskId c) = Some ?c'"
    using getById_map_same [of c q ?c'] c(1) by (simp add: g)
  have 3: "\<forall>i. i \<noteq> taskId c \<longrightarrow> getById (snd (getNext q)) i = getById q i"
    using getById_map_other [of _ ?c' q] by (simp add: g)
  from c 1 2 3 g
  show "\<exists>c \<in> set q.
           eligible q c
           \<and> (\<forall>u \<in> set q. eligible q u \<longrightarrow>
                 priorityRank (priority u) < priorityRank (priority c)
                 \<or> (priorityRank (priority u) = priorityRank (priority c)
                     \<and> createdAt c \<le> createdAt u))
           \<and> fst (getNext q) = Some (c\<lparr>status := Running\<rparr>)
           \<and> status (c\<lparr>status := Running\<rparr>) = Running
           \<and> getById (snd (getNext q)) (taskId c) = Some (c\<lparr>status := Running\<rparr>)
           \<and> (\<forall>i. i \<noteq> taskId c \<longrightarrow> getById (snd (getNext q)) i = getById q i)"
    by (intro bexI [of _ c]) simp_all
qed

subsection \<open>Two tasks that wait for each other\<close>

lemma getById_distinct:
  "distinct (map taskId q) \<Longrightarrow> t \<in> set q \<Longrightarrow> getById q (taskId t) = Some t"
  unfolding getById_def by (induction q) (auto simp: image_iff)

lemma getById_mem: "getById q i = Some t \<Longrightarrow> t \<in> set q \<and> taskId t = i"
  unfolding getById_def by (induction q) (auto split: if_splits)

lemma getById_None: "getById q i = None \<Longrightarrow> i \<notin> set (map taskId q)"
  unfolding getById_def by (induction q) (auto split: if_splits)

lemma replace_ids:
  "taskId c' = i \<Longrightarrow> map taskId (map (\<lambda>u. if taskId u = i then c' else u) q) = map taskId q"
  by (induction q) auto

lemma replace_keeps:
  "t \<in> set q \<Longrightarrow> taskId t \<noteq> i \<Longrightarrow> t \<in> set (map (\<lambda>u. if taskId u = i then c' else u) q)"
  by (induction q) auto

definition cycle_inv :: "task \<Rightarrow> task \<Rightarrow> task_queue \<Rightarrow> bool" where
  "cycle_inv tx ty q \<longleftrightarrow> distinct (map taskId q) \<and> tx \<in> set q \<and> ty \<in> set q"

lemma blocked:
  assumes "cycle_inv tx ty q" and "taskId ty \<in> set (dependencies tx)" and "status ty = Pending"
  shows "\<not> eligible q tx"
proof
  assume "eligible q tx"
  then have "\<forall>d \<in> set (dependencies tx). \<exists>p. getById q d = Some p \<and> status p = Completed"
    unfolding eligible_iff by blast
  with assms(2) obtain p where p: "getById q (taskId ty) = Some p" "status p = Completed"
    by blast
  have "getById q (taskId ty) = Some ty"
    using assms(1) unfolding cycle_inv_def by (intro getById_distinct) blast+
  with p(1) have "p = ty" by (simp only: option.inject)
  with p(2) assms(3) show False by simp
qed

lemma same_id:
  assumes "cycle_inv tx ty q" and "u \<in> set q" and "taskId u = taskId tx"
  shows "u = tx"
proof -
  from assms(1,2) have a: "getById q (taskId u) = Some u"
    unfolding cycle_inv_def by (intro getById_distinct) blast+
  from assms(1) have b: "getById q (taskId tx) = Some tx"
    unfolding cycle_inv_def by (intro getById_distinct) blast+
  from a have "getById q (taskId tx) = Some u" by (simp only: assms(3))
  from this b have "Some u = Some tx" by (rule trans [OF sym])
  then show ?thesis by (rule option.inject [THEN iffD1])
qed

lemma cycle_inv_sym: "cycle_inv tx ty q \<Longrightarrow> cycle_inv ty tx q"
  by (auto simp: cycle_inv_def)

lemma cycle_inv_replace:
  assumes "cycle_inv tx ty q" and "taskId c' = i" and "i \<noteq> taskId tx" and "i \<noteq> taskId ty"
  shows "cycle_inv tx ty (map (\<lambda>u. if taskId u = i then c' else u) q)"
proof -
  let ?q' = "map (\<lambda>u. if taskId u = i then c' else u) q"
  have "map taskId ?q' = map taskId q" by (rule replace_ids [OF assms(2)])
  with assms(1) have d: "distinct (map taskId ?q')" by (simp only: cycle_inv_def)
  from assms(1) have "tx \<in> set q" "ty \<in> set q" by (simp_all only: cycle_inv_def)
  then have "tx \<in> set ?q'" "ty \<in> set ?q'"
    using assms(3,4) by (auto intro!: replace_keeps)
  with d show ?thesis unfolding cycle_inv_def by blast
qed

lemma cycle_inv_getNext:
  assumes inv: "cycle_inv tx ty q"
      and dx: "taskId ty \<in> set (dependencies tx)" and dy: "taskId tx \<in> set (dependencies ty)"
      and px: "status tx = Pending" and py: "status ty = Pending"
  shows "cycle_inv tx ty (snd (getNext q))
         \<and> (\<forall>t. fst (getNext q) = Some t \<longrightarrow> taskId t \<noteq> taskId tx \<and> taskId t \<noteq> taskId ty)"
proof (cases "\<exists>u \<in> set q. eligible q u")
  case False
  then have "filter (eligible q) q = []" by (simp add: filter_empty_conv)
  then have "getNext q = (None, q)" by (rule getNext_None)
  with inv show ?thesis by simp
next
  case True
  from getNext_chosen [OF True] obtain c where c: "c \<in> set q" "eligible q c"
    and g: "getNext q =
               (Some (c\<lparr>status := Running\<rparr>),
                map (\<lambda>u. if taskId u = taskId c then c\<lparr>status := Running\<rparr> else u) q)"
    by blast
  have nx: "taskId c \<noteq> taskId tx"
    using same_id [OF inv c(1)] blocked [OF inv dx py] c(2) by blast
  have ny: "taskId c \<noteq> taskId ty"
    using same_id [OF cycle_inv_sym [OF inv] c(1)] blocked [OF cycle_inv_sym [OF inv] dy px] c(2)
    by blast
  have "cycle_inv tx ty (map (\<lambda>u. if taskId u = taskId c then c\<lparr>status := Running\<rparr> else u) q)"
    using inv _ nx ny by (rule cycle_inv_replace) simp
  with nx ny show ?thesis by (simp add: g)
qed

lemma cycle_inv_add:
  assumes "cycle_inv tx ty q" and "taskId t \<noteq> taskId tx" and "taskId t \<noteq> taskId ty"
  shows "cycle_inv tx ty (add t q)"
proof (cases "getById q (taskId t)")
  case None
  have "add t q = q @ [t]" using None by (simp add: add_def)
  with assms(1) getById_None [OF None] show ?thesis by (simp add: cycle_inv_def)
next
  case (Some a)
  have "cycle_inv tx ty (map (\<lambda>u. if taskId u = taskId t then t else u) q)"
    using assms(1) refl assms(2,3) by (rule cycle_inv_replace)
  moreover have "add t q = map (\<lambda>u. if taskId u = taskId t then t else u) q"
    using Some by (simp add: add_def)
  ultimately show ?thesis by simp
qed

lemma cycle_inv_mark:
  assumes "cycle_inv tx ty q" and "status tx = Pending" and "status ty = Pending"
  shows "cycle_inv tx ty (mark i s q)"
proof -
  have ids: "map taskId (mark i s q) = map taskId q"
    unfolding mark_def by (induction q) auto
  have keep: "\<And>t. t \<in> set q \<Longrightarrow> status t = Pending \<Longrightarrow> t \<in> set (mark i s q)"
    unfolding mark_def by (induction q) auto
  from assms ids keep show ?thesis by (simp add: cycle_inv_def)
qed

lemma cycle_inv_cleanup:
  assumes "cycle_inv tx ty q" and "status tx = Pending" and "status ty = Pending"
  shows "cycle_inv tx ty (cleanup now maxAgeMs q)"
  using assms by (simp add: cycle_inv_def cleanup_def distinct_map_filter)

lemma cycle_inv_run:
  assumes "cycle_inv tx ty q"
      and "taskId ty \<in> set (dependencies tx)" and "taskId tx \<in> set (dependencies ty)"
      and "status tx = Pending" and "status ty = Pending"
      and "\<forall>t. Add t \<in> set ops \<longrightarrow> taskId t \<noteq> taskId tx \<and> taskId t \<noteq> taskId ty"
  shows "cycle_inv tx ty (run_ops q ops)"
  using assms(1,6) unfolding run_ops_def
proof (induction ops arbitrary: q)
  case Nil
  then show ?case by simp
next
  case (Cons op ops)
  have "cycle_inv tx ty (apply_op q op)"
  proof (cases op)
    case (Add t)
    with Cons.prems show ?thesis by (simp add: cycle_inv_add)
  next
    case GetNext
    with cycle_inv_getNext [OF Cons.prems(1) assms(2-5)] show ?thesis by simp
  next
    case (MarkCompleted i)
    with cycle_inv_mark [OF Cons.prems(1) assms(4,5)] show ?thesis by simp
  next
    case (MarkFailed i)
    with cycle_inv_mark [OF Cons.prems(1) assms(4,5)] show ?thesis by simp
  next
    case (Cleanup now age)
    with cycle_inv_cleanup [OF Cons.prems(1) assms(4,5)] show ?thesis by simp
  qed
  moreover have "\<forall>t. Add t \<in> set ops \<longrightarrow> taskId t \<noteq> taskId tx \<and> taskId t \<noteq> taskId ty"
    using Cons.prems(2) by simp
  ultimately have "cycle_inv tx ty (foldl apply_op (apply_op q op) ops)" by (rule Cons.IH)
  then show ?case by simp
qed

lemma getNext_idle:
  assumes "getNext q = (None, q)"
  shows "getNext (((\<lambda>s. snd (getNext s)) ^^ n) q) = (None, q)"
proof -
  have "((\<lambda>s. snd (getNext s)) ^^ n) q = q"
    by (induction n) (simp_all add: assms)
  with assms show ?thesis by simp
qed

text \<open>
  C4. Let two pending tasks of a queue each list the other's id in their dependencies,
  and let the queue then go through any sequence of add of other ids (add overwrites by
  id, so an add of one of the two ids replaces that task), getNext, the scheduler's
  completed and failed marks, and cleanup. In the state reached, getNext never returns
  either task and both are still in the queue as they were; when no other task is
  eligible, getNext returns null and leaves the queue as it is, however often it is
  called. getNext has no error result: it is total.
\<close>

theorem cycle_never_returned:
  assumes "distinct (map taskId q0)" and "tx \<in> set q0" and "ty \<in> set q0"
      and "taskId ty \<in> set (dependencies tx)" and "taskId tx \<in> set (dependencies ty)"
      and "status tx = Pending" and "status ty = Pending"
      and "\<forall>t. Add t \<in> set ops \<longrightarrow> taskId t \<noteq> taskId tx \<and> taskId t \<noteq> taskId ty"
      and "q = run_ops q0 ops"
  shows "(\<forall>t. fst (getNext q) = Some t \<longrightarrow> taskId t \<noteq> taskId tx \<and> taskId t \<noteq> taskId ty)
       \<and> getById q (taskId tx) = Some tx \<and> getById q (taskId ty) = Some ty
       \<and> ((\<forall>u \<in> set q. eligible q u \<longrightarrow> taskId u = taskId tx \<or> taskId u = taskId ty)
            \<longrightarrow> (\<forall>n. getNext (((\<lambda>s. snd (getNext s)) ^^ n) q) = (None, q)))"
proof -
  have "cycle_inv tx ty q0" using assms(1-3) by (simp add: cycle_inv_def)
  then have inv: "cycle_inv tx ty q"
    unfolding assms(9) using assms(4-8) by (rule cycle_inv_run)
  have 1: "\<forall>t. fst (getNext q) = Some t \<longrightarrow> taskId t \<noteq> taskId tx \<and> taskId t \<noteq> taskId ty"
    using cycle_inv_getNext [OF inv assms(4-7)] by blast
  have 2: "getById q (taskId tx) = Some tx" "getById q (taskId ty) = Some ty"
    using inv unfolding cycle_inv_def by (blast intro: getById_distinct)+
  have 3: "(\<forall>u \<in> set q. eligible q u \<longrightarrow> taskId u = taskId tx \<or> taskId u = taskId ty)
            \<longrightarrow> (\<forall>n. getNext (((\<lambda>s. snd (getNext s)) ^^ n) q) = (None, q))"
  proof (intro impI allI)
    fix n
    assume h: "\<forall>u \<in> set q. eligible q u \<longrightarrow> taskId u = taskId tx \<or> taskId u = taskId ty"
    have "\<forall>u \<in> set q. \<not> eligible q u"
    proof (intro ballI notI)
      fix u assume u: "u \<in> set q" "eligible q u"
      with h have "taskId u = taskId tx \<or> taskId u = taskId ty" by blast
      then have "u = tx \<or> u = ty"
        using same_id [OF inv u(1)] same_id [OF cycle_inv_sym [OF inv] u(1)] by blast
      with u(2) blocked [OF inv assms(4,7)] blocked [OF cycle_inv_sym [OF inv] assms(5,6)]
      show False by blast
    qed
    then have "filter (eligible q) q = []" by (simp add: filter_empty_conv)
    then have "getNext q = (None, q)" by (rule getNext_None)
    then show "getNext (((\<lambda>s. snd (getNext s)) ^^ n) q) = (None, q)" by (rule getNext_idle)
  qed
  from 1 2 3 show ?thesis by blast
qed

subsection \<open>The scenarios of the spec\<close>

text \<open>A pending task as the tests' \<open>TaskFactory.create\<close> makes it (tests/helpers).\<close>

definition mkTask :: "jsstring \<Rightarrow> priority \<Rightarrow> jsstring list \<Rightarrow> int \<Rightarrow> task" where
  "mkTask i p deps created =
     \<lparr>taskId = i, description = js ''Test task description'', mode = js ''coder'',
      priority = p, dependencies = deps, status = Pending,
      createdAt = created, updatedAt = created\<rparr>"

definition three_priorities :: task_queue where
  "three_priorities =
     [mkTask (js ''L'') Low [] 1, mkTask (js ''H'') High [] 2, mkTask (js ''M'') Medium [] 3]"

definition task_x :: task where
  "task_x = mkTask (js ''x'') Medium [js ''y''] 1"

definition task_y :: task where
  "task_y = mkTask (js ''y'') Medium [js ''x''] 2"

lemmas queue_eval = getNext_def eligible_def dependenciesMet_def getById_def precedes_def
  mkTask_def run_ops_def Let_def

theorem getNext_selects_witness:
  "fst (getNext three_priorities) = Some ((mkTask (js ''H'') High [] 2)\<lparr>status := Running\<rparr>)
   \<and> (\<exists>c \<in> set three_priorities.
         eligible three_priorities c
         \<and> fst (getNext three_priorities) = Some (c\<lparr>status := Running\<rparr>)
         \<and> getById (snd (getNext three_priorities)) (taskId c) = Some (c\<lparr>status := Running\<rparr>))
   \<and> getNext [] = (None, [])"
proof -
  have v: "fst (getNext three_priorities) = Some ((mkTask (js ''H'') High [] 2)\<lparr>status := Running\<rparr>)"
    by (simp add: three_priorities_def queue_eval)
  have e: "\<exists>u \<in> set three_priorities. eligible three_priorities u"
    by (simp add: three_priorities_def queue_eval)
  from getNext_selects [of three_priorities "mkTask (js ''H'') High [] 2"] e
  have a: "\<exists>c \<in> set three_priorities.
         eligible three_priorities c
         \<and> fst (getNext three_priorities) = Some (c\<lparr>status := Running\<rparr>)
         \<and> getById (snd (getNext three_priorities)) (taskId c) = Some (c\<lparr>status := Running\<rparr>)"
    by blast
  from getNext_selects [of "[]" "mkTask (js ''H'') High [] 2"]
  have b: "getNext [] = (None, [])" by simp
  from v a b show ?thesis by blast
qed

theorem cycle_never_returned_witness:
  "run_ops [task_x, task_y] [GetNext, Add (mkTask (js ''z'') High [] 3), GetNext,
                             MarkCompleted (js ''z''), GetNext]
     = [task_x, task_y, (mkTask (js ''z'') High [] 3)\<lparr>status := Completed\<rparr>]
   \<and> getNext [task_x, task_y, (mkTask (js ''z'') High [] 3)\<lparr>status := Completed\<rparr>]
       = (None, [task_x, task_y, (mkTask (js ''z'') High [] 3)\<lparr>status := Completed\<rparr>])
   \<and> getNext (((\<lambda>s. snd (getNext s)) ^^ 3)
         [task_x, task_y, (mkTask (js ''z'') High [] 3)\<lparr>status := Completed\<rparr>])
       = (None, [task_x, task_y, (mkTask (js ''z'') High [] 3)\<lparr>status := Completed\<rparr>])"
proof -
  let ?z = "mkTask (js ''z'') High [] 3"
  let ?ops = "[GetNext, Add ?z, GetNext, MarkCompleted (js ''z''), GetNext]"
  let ?q = "[task_x, task_y, ?z\<lparr>status := Completed\<rparr>]"
  have r: "run_ops [task_x, task_y] ?ops = ?q"
    by (simp add: task_x_def task_y_def queue_eval add_def mark_def)
  have h1: "distinct (map taskId [task_x, task_y])" "task_x \<in> set [task_x, task_y]"
    "task_y \<in> set [task_x, task_y]"
    "taskId task_y \<in> set (dependencies task_x)" "taskId task_x \<in> set (dependencies task_y)"
    "status task_x = Pending" "status task_y = Pending"
    by (simp_all add: task_x_def task_y_def mkTask_def)
  have h2: "\<forall>t. Add t \<in> set ?ops \<longrightarrow> taskId t \<noteq> taskId task_x \<and> taskId t \<noteq> taskId task_y"
    by (simp add: task_x_def task_y_def mkTask_def)
  have h3: "\<forall>u \<in> set ?q. eligible ?q u \<longrightarrow> taskId u = taskId task_x \<or> taskId u = taskId task_y"
    by (simp add: task_x_def task_y_def queue_eval)
  from cycle_never_returned [OF h1 h2 r [symmetric]] h3
  have idle: "\<forall>n. getNext (((\<lambda>s. snd (getNext s)) ^^ n) ?q) = (None, ?q)" by blast
  from idle [rule_format, of 0] have g0: "getNext ?q = (None, ?q)" by simp
  from idle [rule_format, of 3] r g0 show ?thesis by blast
qed

text \<open>
  Without the two conditions the tasks of a cycle can be returned. From the empty queue:
  add \<open>y\<close> with no dependencies, run and complete it; add \<open>x\<close>, which depends on \<open>y\<close>,
  and getNext returns it; add \<open>y\<close> again, now depending on \<open>x\<close>, which overwrites the
  completed \<open>y\<close>; complete \<open>x\<close>. The queue holds \<open>x\<close> and \<open>y\<close>, each listing the other's
  id, and getNext returns \<open>y\<close>.
\<close>

theorem cycle_never_returned_counterexample:
  "run_ops [] [Add (mkTask (js ''y'') Medium [] 0), GetNext, MarkCompleted (js ''y''),
               Add task_x, GetNext, Add task_y, MarkCompleted (js ''x'')]
     = [task_y, task_x\<lparr>status := Completed\<rparr>]
   \<and> taskId task_y \<in> set (dependencies (task_x\<lparr>status := Completed\<rparr>))
   \<and> taskId (task_x\<lparr>status := Completed\<rparr>) \<in> set (dependencies task_y)
   \<and> fst (getNext [task_y, task_x\<lparr>status := Completed\<rparr>]) = Some (task_y\<lparr>status := Running\<rparr>)"
  by (simp add: task_x_def task_y_def queue_eval add_def mark_def)

section \<open>Memory store (spec section 4.D; src/core/memory-manager.ts is not among the sources)\<close>

text \<open>
  Modelled from the spec: the MemoryEntry of section 3 (the source of the store and
  src/types are missing). The content is "a tagged sum Text(string) | Structured(value)
  with a stable serialization"; the serialization of a structured value is a parameter,
  \<open>stringify\<close>, of the operations that read the content as text. A timestamp is a date
  value, in milliseconds.
\<close>

datatype entry_type = Knowledge | Result | Error | Context

text \<open>Modelled from the spec: a structured value, as JSON has them.\<close>

datatype json_value =
    JNull
  | JBoolean bool
  | JNumber int
  | JText jsstring
  | JArray "json_value list"
  | JObject "(jsstring \<times> json_value) list"

text \<open>Modelled from the spec: the content of an entry, "Text(string) | Structured(value)".\<close>

datatype content = Text jsstring | Structured json_value

text \<open>Modelled from the spec: the fields of a MemoryEntry; \<open>entryId\<close> is its \<open>id\<close> and \<open>entryType\<close> its
  \<open>type\<close>.\<close>

record memory_entry =
  entryId :: jsstring
  agentId :: jsstring
  timestamp :: int
  entryType :: entry_type
  content :: content
  tags :: "jsstring list"

text \<open>
  Modelled from the spec: the persisted layout of section 6, "an object whose keys are
  agent ids and whose values are arrays of MemoryEntry records. Timestamps are ISO-8601
  strings". A file holds such a document or something that does not parse; the disk maps
  a path to its file.
\<close>

text \<open>Modelled from the spec: a MemoryEntry as the file holds it, with its timestamp as a string.\<close>

record persisted_entry =
  p_id :: jsstring
  p_agentId :: jsstring
  p_timestamp :: jsstring
  p_type :: entry_type
  p_content :: content
  p_tags :: "jsstring list"

text \<open>Modelled from the spec: what a file holds: a document of the persisted layout, or text that
  does not parse.\<close>

datatype file_content = Document "(jsstring \<times> persisted_entry list) list" | Malformed

text \<open>Modelled from the spec: the disk, from paths to files.\<close>

type_synonym disk = "jsstring \<Rightarrow> file_content option"

text \<open>
  Modelled from the spec: the memory state, "a mapping agentId -> ordered list of
  MemoryEntry", with the retention limits (defaults: 1000 entries, 7 days).
\<close>

record memory_manager =
  memoryPath :: jsstring
  memory :: "(jsstring \<times> memory_entry list) list"
  initialized :: bool
  softMaxEntries :: nat
  maxAgeMs :: int

text \<open>Modelled from the spec: a new store on a path, with the default limits, not yet initialized.\<close>

definition newMemoryManager :: "jsstring \<Rightarrow> memory_manager" where
  "newMemoryManager path =
     \<lparr>memoryPath = path, memory = [], initialized = False,
      softMaxEntries = 1000, maxAgeMs = 7 * 86400000\<rparr>"

text \<open>Modelled from the spec: all the entries of the store, agent by agent, each list in insertion
  order.\<close>

definition allEntries :: "memory_manager \<Rightarrow> memory_entry list" where
  "allEntries m = concat (map snd (memory m))"

text \<open>
  Modelled from the spec: "Timestamps are ISO-8601 strings". The text is the one
  \<open>Date.prototype.toISOString\<close> writes, \<open>YYYY-MM-DDTHH:mm:ss.sssZ\<close>, for the dates of the
  years 1970 to 9999 (outside them JavaScript writes a sign and six digits for the
  year, which is not modelled). A date value is a number of milliseconds since
  1970-01-01T00:00:00.000Z. This is the leap year rule.
\<close>

definition isLeap :: "nat \<Rightarrow> bool" where
  "isLeap y \<longleftrightarrow> (y mod 4 = 0 \<and> y mod 100 \<noteq> 0) \<or> y mod 400 = 0"

text \<open>Modelled from the spec: the number of days of a year.\<close>

definition daysInYear :: "nat \<Rightarrow> nat" where
  "daysInYear y = (if isLeap y then 366 else 365)"

text \<open>Modelled from the spec: the year that holds the day \<open>n\<close> days after the first day of the year
  \<open>y\<close>, and the day in that year, from 0.\<close>

function yearOf :: "nat \<Rightarrow> nat \<Rightarrow> nat \<times> nat" where
  "yearOf y n = (if n < daysInYear y then (y, n) else yearOf (Suc y) (n - daysInYear y))"
  by pat_completeness auto
termination
  by (relation "measure (\<lambda>(y, n). n)") (auto simp: daysInYear_def)

declare yearOf.simps [simp del]

text \<open>Modelled from the spec: the number of days of the \<open>k\<close> years from the year \<open>y0\<close> on.\<close>

fun daysBeforeYear :: "nat \<Rightarrow> nat \<Rightarrow> nat" where
  "daysBeforeYear y0 0 = 0"
| "daysBeforeYear y0 (Suc k) = daysInYear y0 + daysBeforeYear (Suc y0) k"

lemma yearOf_sound:
  "yearOf y0 n = (y, doy) \<Longrightarrow>
   y0 \<le> y \<and> doy < daysInYear y \<and> daysBeforeYear y0 (y - y0) + doy = n"
proof (induction y0 n rule: yearOf.induct)
  case (1 y0 n)
  show ?case
  proof (cases "n < daysInYear y0")
    case True
    with "1.prems" show ?thesis by (simp add: yearOf.simps [of y0 n])
  next
    case False
    with "1.prems" have r: "yearOf (Suc y0) (n - daysInYear y0) = (y, doy)"
      by (simp add: yearOf.simps [of y0 n])
    from "1.IH" [OF False r] have ih: "Suc y0 \<le> y" "doy < daysInYear y"
      "daysBeforeYear (Suc y0) (y - Suc y0) + doy = n - daysInYear y0" by simp_all
    from ih(1) have "y - y0 = Suc (y - Suc y0)" by simp
    with ih False show ?thesis by simp
  qed
qed

lemma daysBeforeYear_ge: "365 * k \<le> daysBeforeYear y0 k"
proof (induction k arbitrary: y0)
  case 0
  then show ?case by simp
next
  case (Suc k)
  have "365 \<le> daysInYear y0" by (simp add: daysInYear_def)
  with Suc [of "Suc y0"] show ?case by simp
qed

text \<open>Modelled from the spec: the lengths of the twelve months.\<close>

definition monthLengths :: "bool \<Rightarrow> nat list" where
  "monthLengths leap = [31, if leap then 29 else 28, 31, 30, 31, 30, 31, 31, 30, 31, 30, 31]"

text \<open>Modelled from the spec: the month, from 0, that holds the day \<open>n\<close> of a year, and the day in
  that month, from 0.\<close>

fun monthOf :: "nat list \<Rightarrow> nat \<Rightarrow> nat \<times> nat" where
  "monthOf [] n = (0, n)"
| "monthOf (l # ls) n =
     (if n < l then (0, n) else (case monthOf ls (n - l) of (m, d) \<Rightarrow> (Suc m, d)))"

lemma monthOf_sound:
  "n < sum_list ls \<Longrightarrow> monthOf ls n = (m, d) \<Longrightarrow>
   m < length ls \<and> d < ls ! m \<and> sum_list (take m ls) + d = n"
proof (induction ls arbitrary: n m d)
  case Nil
  then show ?case by simp
next
  case (Cons l ls)
  show ?case
  proof (cases "n < l")
    case True
    with Cons.prems show ?thesis by simp
  next
    case False
    obtain m' d' where r: "monthOf ls (n - l) = (m', d')" by (cases "monthOf ls (n - l)")
    with False Cons.prems have md: "m = Suc m'" "d = d'" by simp_all
    from False Cons.prems have "n - l < sum_list ls" by simp
    from Cons.IH [OF this r] have "m' < length ls" "d' < ls ! m'" "sum_list (take m' ls) + d' = n - l"
      by simp_all
    with False md show ?thesis by simp
  qed
qed

lemma sum_monthLengths: "sum_list (monthLengths (isLeap y)) = daysInYear y"
  by (simp add: monthLengths_def daysInYear_def)



text \<open>Modelled from the spec: a decimal digit as a character, and numbers written with two, three
  and four digits.\<close>

definition digit :: "nat \<Rightarrow> code_unit" where
  "digit n = 48 + n mod 10"

definition pad2 :: "nat \<Rightarrow> jsstring" where
  "pad2 n = [digit (n div 10), digit n]"

definition pad3 :: "nat \<Rightarrow> jsstring" where
  "pad3 n = [digit (n div 100), digit (n div 10), digit n]"

definition pad4 :: "nat \<Rightarrow> jsstring" where
  "pad4 n = [digit (n div 1000), digit (n div 100), digit (n div 10), digit n]"

text \<open>Modelled from the spec: the reading of a decimal number.\<close>

definition isDigit :: "code_unit \<Rightarrow> bool" where
  "isDigit c \<longleftrightarrow> 48 \<le> c \<and> c \<le> 57"

definition number :: "jsstring \<Rightarrow> nat" where
  "number ds = foldl (\<lambda>a c. 10 * a + (c - 48)) 0 ds"

text \<open>Modelled from the spec: the ISO-8601 text of a date value.\<close>

definition toISOString :: "int \<Rightarrow> jsstring" where
  "toISOString t =
     (let n = nat t;
          ms = n mod 86400000;
          (y, doy) = yearOf 1970 (n div 86400000);
          (m, d) = monthOf (monthLengths (isLeap y)) doy
      in pad4 y @ js ''-'' @ pad2 (m + 1) @ js ''-'' @ pad2 (d + 1) @ js ''T''
         @ pad2 (ms div 3600000) @ js '':'' @ pad2 (ms div 60000 mod 60) @ js '':''
         @ pad2 (ms div 1000 mod 60) @ js ''.'' @ pad3 (ms mod 1000) @ js ''Z'')"

text \<open>Modelled from the spec: the date value of an ISO-8601 text of that form, "coercing timestamps
  back to date values"; \<open>None\<close> for a text of another form.\<close>

definition parseDate :: "jsstring \<Rightarrow> int option" where
  "parseDate s =
     (if length s = 24
         \<and> list_all isDigit (take 4 s) \<and> s ! 4 = 45
         \<and> list_all isDigit (take 2 (drop 5 s)) \<and> s ! 7 = 45
         \<and> list_all isDigit (take 2 (drop 8 s)) \<and> s ! 10 = 84
         \<and> list_all isDigit (take 2 (drop 11 s)) \<and> s ! 13 = 58
         \<and> list_all isDigit (take 2 (drop 14 s)) \<and> s ! 16 = 58
         \<and> list_all isDigit (take 2 (drop 17 s)) \<and> s ! 19 = 46
         \<and> list_all isDigit (take 3 (drop 20 s)) \<and> s ! 23 = 90
      then
        let y = number (take 4 s);
            mo = number (take 2 (drop 5 s));
            d = number (take 2 (drop 8 s));
            h = number (take 2 (drop 11 s));
            mi = number (take 2 (drop 14 s));
            sec = number (take 2 (drop 17 s));
            ms = number (take 3 (drop 20 s))
        in if 1970 \<le> y \<and> 1 \<le> mo \<and> mo \<le> 12 \<and> 1 \<le> d \<and> d \<le> 31 \<and> h < 24 \<and> mi < 60 \<and> sec < 60
           then Some (int ((daysBeforeYear 1970 (y - 1970)
                             + sum_list (take (mo - 1) (monthLengths (isLeap y))) + (d - 1)) * 86400000
                           + h * 3600000 + mi * 60000 + sec * 1000 + ms))
           else None
      else None)"

lemma isDigit_digit: "isDigit (digit n)"
  by (simp add: isDigit_def digit_def)

lemma digit_val: "digit n - 48 = n mod 10"
  by (simp add: digit_def)

lemma number_pad2: "n < 100 \<Longrightarrow> number (pad2 n) = n"
  by (simp add: number_def pad2_def digit_val)

lemma number_pad3: "n < 1000 \<Longrightarrow> number (pad3 n) = n"
proof -
  assume "n < 1000"
  have a: "n mod 100 = 10 * (n div 10 mod 10) + n mod 10"
    using mod_mult2_eq [of n 10 10] by simp
  have "n = 100 * (n div 100) + n mod 100" by simp
  then have "100 * (n div 100) + (10 * (n div 10 mod 10) + n mod 10) = n"
    unfolding a [symmetric] by simp
  then show ?thesis using \<open>n < 1000\<close> by (simp add: number_def pad3_def digit_val)
qed

lemma number_pad4: "n < 10000 \<Longrightarrow> number (pad4 n) = n"
proof -
  assume "n < 10000"
  have a: "n mod 100 = 10 * (n div 10 mod 10) + n mod 10"
    using mod_mult2_eq [of n 10 10] by simp
  have b: "n mod 1000 = 100 * (n div 100 mod 10) + n mod 100"
    using mod_mult2_eq [of n 100 10] by simp
  have "n = 1000 * (n div 1000) + n mod 1000" by simp
  then have "1000 * (n div 1000) + (100 * (n div 100 mod 10) + (10 * (n div 10 mod 10) + n mod 10)) = n"
    unfolding a [symmetric] b [symmetric] by simp
  then show ?thesis using \<open>n < 10000\<close> by (simp add: number_def pad4_def digit_val)
qed

lemma month_day_bound:
  assumes "m < 12" and "d < monthLengths leap ! m"
  shows "d < 31"
proof -
  have "\<forall>l \<in> set (monthLengths leap). l \<le> 31" by (simp add: monthLengths_def)
  moreover have "monthLengths leap ! m \<in> set (monthLengths leap)"
    using assms(1) by (intro nth_mem) (simp add: monthLengths_def)
  ultimately show ?thesis using assms(2) by fastforce
qed

lemma time_of_day:
  fixes ms :: nat
  assumes "ms < 86400000"
  shows "ms div 3600000 < 24"
    and "ms div 3600000 * 3600000 + ms div 60000 mod 60 * 60000 + ms div 1000 mod 60 * 1000
           + ms mod 1000 = ms"
proof -
  from assms have "ms < 24 * 3600000" by simp
  then show "ms div 3600000 < 24" by (rule less_mult_imp_div_less)
  have a: "ms mod 3600000 = 60000 * (ms div 60000 mod 60) + ms mod 60000"
    using mod_mult2_eq [of ms 60000 60] by simp
  have b: "ms mod 60000 = 1000 * (ms div 1000 mod 60) + ms mod 1000"
    using mod_mult2_eq [of ms 1000 60] by simp
  have c: "ms = 3600000 * (ms div 3600000) + ms mod 3600000" by simp
  have "ms div 3600000 * 3600000 + ms div 60000 mod 60 * 60000 + ms div 1000 mod 60 * 1000
           + ms mod 1000
        = 3600000 * (ms div 3600000) + (60000 * (ms div 60000 mod 60)
            + (1000 * (ms div 1000 mod 60) + ms mod 1000))"
    by (simp only: mult.commute add.assoc)
  also have "\<dots> = ms" unfolding b [symmetric] a [symmetric] using c by simp
  finally show "ms div 3600000 * 3600000 + ms div 60000 mod 60 * 60000 + ms div 1000 mod 60 * 1000
           + ms mod 1000 = ms" .
qed


text \<open>Modelled from the spec: the text of a date given by its fields.\<close>

definition isoText :: "nat \<Rightarrow> nat \<Rightarrow> nat \<Rightarrow> nat \<Rightarrow> nat \<Rightarrow> nat \<Rightarrow> nat \<Rightarrow> jsstring" where
  "isoText y mo d h mi sec ms =
     pad4 y @ js ''-'' @ pad2 mo @ js ''-'' @ pad2 d @ js ''T''
     @ pad2 h @ js '':'' @ pad2 mi @ js '':'' @ pad2 sec @ js ''.'' @ pad3 ms @ js ''Z''"

lemma isoText_shape:
  "length (isoText y mo d h mi sec ms) = 24"
  "take 4 (isoText y mo d h mi sec ms) = pad4 y"
  "take 2 (drop 5 (isoText y mo d h mi sec ms)) = pad2 mo"
  "take 2 (drop 8 (isoText y mo d h mi sec ms)) = pad2 d"
  "take 2 (drop 11 (isoText y mo d h mi sec ms)) = pad2 h"
  "take 2 (drop 14 (isoText y mo d h mi sec ms)) = pad2 mi"
  "take 2 (drop 17 (isoText y mo d h mi sec ms)) = pad2 sec"
  "take 3 (drop 20 (isoText y mo d h mi sec ms)) = pad3 ms"
  "isoText y mo d h mi sec ms ! 4 = 45" "isoText y mo d h mi sec ms ! 7 = 45"
  "isoText y mo d h mi sec ms ! 10 = 84" "isoText y mo d h mi sec ms ! 13 = 58"
  "isoText y mo d h mi sec ms ! 16 = 58" "isoText y mo d h mi sec ms ! 19 = 46"
  "isoText y mo d h mi sec ms ! 23 = 90"
  by (simp_all add: isoText_def pad2_def pad3_def pad4_def)

lemma pads_digits:
  "list_all isDigit (pad2 n)" "list_all isDigit (pad3 n)" "list_all isDigit (pad4 n)"
  by (simp_all add: pad2_def pad3_def pad4_def isDigit_digit)

lemma parseDate_isoText:
  assumes "1970 \<le> y" "y < 10000" "1 \<le> mo" "mo \<le> 12" "1 \<le> d" "d \<le> 31"
      and "h < 24" "mi < 60" "sec < 60" "ms < 1000"
  shows "parseDate (isoText y mo d h mi sec ms)
           = Some (int ((daysBeforeYear 1970 (y - 1970)
                          + sum_list (take (mo - 1) (monthLengths (isLeap y))) + (d - 1)) * 86400000
                        + h * 3600000 + mi * 60000 + sec * 1000 + ms))"
proof -
  have n: "number (pad4 y) = y" "number (pad2 mo) = mo" "number (pad2 d) = d"
    "number (pad2 h) = h" "number (pad2 mi) = mi" "number (pad2 sec) = sec"
    "number (pad3 ms) = ms"
    using assms by (simp_all add: number_pad2 number_pad3 number_pad4)
  show ?thesis
    unfolding parseDate_def isoText_shape n Let_def
    using assms by (simp add: pads_digits)
qed

lemma toISOString_isoText:
  assumes "yearOf 1970 (nat t div 86400000) = (y, doy)"
      and "monthOf (monthLengths (isLeap y)) doy = (m, d)"
  shows "toISOString t
           = isoText y (m + 1) (d + 1) (nat t mod 86400000 div 3600000)
               (nat t mod 86400000 div 60000 mod 60) (nat t mod 86400000 div 1000 mod 60)
               (nat t mod 86400000 mod 1000)"
  using assms by (simp add: toISOString_def isoText_def Let_def)

lemma parseDate_toISOString:
  assumes "0 \<le> t" and "fst (yearOf 1970 (nat t div 86400000)) < 10000"
  shows "parseDate (toISOString t) = Some t"
proof -
  let ?n = "nat t"
  let ?ms = "?n mod 86400000"
  obtain y doy where yd: "yearOf 1970 (?n div 86400000) = (y, doy)"
    by (cases "yearOf 1970 (?n div 86400000)")
  obtain m d where md: "monthOf (monthLengths (isLeap y)) doy = (m, d)"
    by (cases "monthOf (monthLengths (isLeap y)) doy")
  from yearOf_sound [OF yd] have y: "1970 \<le> y" "doy < daysInYear y"
    and days: "daysBeforeYear 1970 (y - 1970) + doy = ?n div 86400000" by simp_all
  from assms(2) yd have y4: "y < 10000" by simp
  from y(2) have "doy < sum_list (monthLengths (isLeap y))" by (simp add: sum_monthLengths)
  from monthOf_sound [OF this md] have m: "m < 12" "d < monthLengths (isLeap y) ! m"
    and doy: "sum_list (take m (monthLengths (isLeap y))) + d = doy"
    by (simp_all add: monthLengths_def)
  from month_day_bound [OF m] have d: "d < 31" .
  have ms: "?ms < 86400000" by simp
  have tod: "?ms div 3600000 * 3600000 + ?ms div 60000 mod 60 * 60000 + ?ms div 1000 mod 60 * 1000
           + ?ms mod 1000 = ?ms"
    by (rule time_of_day(2) [OF ms])
  have "parseDate (toISOString t)
          = Some (int ((daysBeforeYear 1970 (y - 1970)
                          + sum_list (take (m + 1 - 1) (monthLengths (isLeap y))) + (d + 1 - 1)) * 86400000
                        + ?ms div 3600000 * 3600000 + ?ms div 60000 mod 60 * 60000
                        + ?ms div 1000 mod 60 * 1000 + ?ms mod 1000))"
    unfolding toISOString_isoText [OF yd md]
    using y(1) y4 m(1) d time_of_day(1) [OF ms]
    by (intro parseDate_isoText) simp_all
  also have "\<dots> = Some (int ((?n div 86400000) * 86400000 + ?ms))"
    using days doy tod by (simp add: add.assoc)
  also have "\<dots> = Some t" using assms(1) by simp
  finally show ?thesis .
qed


text \<open>Modelled from the spec: the year of a date value.\<close>

definition isoYear :: "int \<Rightarrow> nat" where
  "isoYear t = fst (yearOf 1970 (nat t div 86400000))"

lemmas iso_eval = toISOString_def yearOf.simps daysInYear_def isLeap_def monthLengths_def
  pad2_def pad3_def pad4_def digit_def Let_def

lemma toISOString_example: "toISOString 1700000000000 = js ''2023-11-14T22:13:20.000Z''"
  by (simp add: iso_eval)

lemma isoYear_example: "isoYear 1700000000000 = 2023"
  by (simp add: isoYear_def yearOf.simps daysInYear_def isLeap_def)

text \<open>Modelled from the spec: an entry as the file holds it.\<close>

definition persist :: "memory_entry \<Rightarrow> persisted_entry" where
  "persist e =
     \<lparr>p_id = entryId e, p_agentId = agentId e, p_timestamp = toISOString (timestamp e),
      p_type = entryType e, p_content = content e, p_tags = tags e\<rparr>"

text \<open>
  Modelled from the spec: an entry read from the file, its timestamp coerced back to a
  date value; \<open>None\<close> when the timestamp does not read as a date.
\<close>

definition restore :: "persisted_entry \<Rightarrow> memory_entry option" where
  "restore p =
     (case parseDate (p_timestamp p) of
        None \<Rightarrow> None
      | Some t \<Rightarrow>
          Some \<lparr>entryId = p_id p, agentId = p_agentId p, timestamp = t,
                entryType = p_type p, content = p_content p, tags = p_tags p\<rparr>)"

text \<open>
  Modelled from the spec: the map a document holds; \<open>None\<close> when one of its timestamps
  does not read as a date, which makes the file malformed.
\<close>

definition load :: "(jsstring \<times> persisted_entry list) list
    \<Rightarrow> (jsstring \<times> memory_entry list) list option" where
  "load doc = those (map (\<lambda>(a, es). map_option (Pair a) (those (map restore es))) doc)"

text \<open>
  Modelled from the spec: \<open>initialize()\<close>. "Idempotent. If the file exists and parses,
  load it. If it does not exist, leave the in-memory map empty. If it exists but is
  malformed, proceed with an empty map (never raise)."
\<close>

definition initialize :: "disk \<Rightarrow> memory_manager \<Rightarrow> memory_manager" where
  "initialize d m =
     (if initialized m then m
      else case d (memoryPath m) of
             None \<Rightarrow> m\<lparr>initialized := True\<rparr>
           | Some Malformed \<Rightarrow> m\<lparr>memory := [], initialized := True\<rparr>
           | Some (Document doc) \<Rightarrow>
               (case load doc of
                  None \<Rightarrow> m\<lparr>memory := [], initialized := True\<rparr>
                | Some mem \<Rightarrow> m\<lparr>memory := mem, initialized := True\<rparr>))"

text \<open>
  Modelled from the spec: cleanup. "Removes entries older than the age cap; if total
  still exceeds the count cap, removes oldest entries first until under the cap."
\<close>

fun dropFirst :: "('a \<Rightarrow> bool) \<Rightarrow> 'a list \<Rightarrow> 'a list" where
  "dropFirst P [] = []"
| "dropFirst P (x # xs) = (if P x then xs else x # dropFirst P xs)"

text \<open>Modelled from the spec: removal of the first entry that has the given timestamp.\<close>

fun evictAt :: "int \<Rightarrow> (jsstring \<times> memory_entry list) list \<Rightarrow> (jsstring \<times> memory_entry list) list" where
  "evictAt t [] = []"
| "evictAt t ((a, es) # rest) =
     (if list_ex (\<lambda>e. timestamp e = t) es
      then (a, dropFirst (\<lambda>e. timestamp e = t) es) # rest
      else (a, es) # evictAt t rest)"

text \<open>Modelled from the spec: the timestamp of the oldest entry.\<close>

fun oldestTimestamp :: "memory_entry list \<Rightarrow> int option" where
  "oldestTimestamp [] = None"
| "oldestTimestamp (e # es) =
     (case oldestTimestamp es of
        None \<Rightarrow> Some (timestamp e)
      | Some t \<Rightarrow> Some (min (timestamp e) t))"

text \<open>Modelled from the spec: "removes oldest entries first", as many as given.\<close>

fun evictOldest :: "nat \<Rightarrow> (jsstring \<times> memory_entry list) list \<Rightarrow> (jsstring \<times> memory_entry list) list" where
  "evictOldest 0 mem = mem"
| "evictOldest (Suc n) mem =
     (case oldestTimestamp (concat (map snd mem)) of
        None \<Rightarrow> mem
      | Some t \<Rightarrow> evictOldest n (evictAt t mem))"

text \<open>Modelled from the spec: the cleanup: the age cap first, then the count cap.\<close>

definition cleanupMemory :: "int \<Rightarrow> memory_manager \<Rightarrow> memory_manager" where
  "cleanupMemory now m =
     (let fresh = map (\<lambda>(a, es). (a, filter (\<lambda>e. now - timestamp e \<le> maxAgeMs m) es)) (memory m);
          total = length (concat (map snd fresh))
      in m\<lparr>memory := evictOldest (total - softMaxEntries m) fresh\<rparr>)"

text \<open>
  Modelled from the spec: \<open>store({agentId, type, content, tags})\<close>. "Creates a
  MemoryEntry with a freshly generated id and current timestamp; appends to the
  per-agent list. Triggers eviction if total entry count exceeds the soft cap or any
  entry is older than the age cap." The fresh id and the current time are given; the
  debounced flush is the caller's \<open>flush\<close>.
\<close>

fun appendFor :: "jsstring \<Rightarrow> memory_entry \<Rightarrow> (jsstring \<times> memory_entry list) list
    \<Rightarrow> (jsstring \<times> memory_entry list) list" where
  "appendFor a e [] = [(a, [e])]"
| "appendFor a e ((b, es) # rest) =
     (if a = b then (b, es @ [e]) # rest else (b, es) # appendFor a e rest)"

text \<open>Modelled from the spec: the \<open>store\<close> operation, on the fields of the new entry.\<close>

definition store ::
  "int \<Rightarrow> jsstring \<Rightarrow> jsstring \<Rightarrow> entry_type \<Rightarrow> content \<Rightarrow> jsstring list
     \<Rightarrow> memory_manager \<Rightarrow> memory_manager" where
  "store now freshId agent ty c tgs m =
     (let e = \<lparr>entryId = freshId, agentId = agent, timestamp = now, entryType = ty,
                content = c, tags = tgs\<rparr>;
          m1 = m\<lparr>memory := appendFor agent e (memory m)\<rparr>
      in if length (allEntries m1) > softMaxEntries m1
            \<or> list_ex (\<lambda>x. now - timestamp x > maxAgeMs m1) (allEntries m1)
         then cleanupMemory now m1 else m1)"

text \<open>
  Modelled from the spec: \<open>flush()\<close>. "Writes the in-memory map to disk as a single
  JSON document. On write failure, logs and retains the in-memory state." Whether the
  write succeeds is given.
\<close>

definition flush :: "bool \<Rightarrow> memory_manager \<Rightarrow> disk \<Rightarrow> disk" where
  "flush writeOk m d =
     (if writeOk
      then d(memoryPath m \<mapsto> Document (map (\<lambda>(a, es). (a, map persist es)) (memory m)))
      else d)"

text \<open>
  Modelled from the spec: the stringified content, and \<open>search(query, tags?)\<close>.
  "Case-insensitive substring match against the stringified content; when tags is
  provided, requires the entry's tag set to intersect. Returns matching entries in
  insertion order. Empty query behavior: returns no entries."
\<close>

fun stringified :: "(json_value \<Rightarrow> jsstring) \<Rightarrow> content \<Rightarrow> jsstring" where
  "stringified stringify (Text s) = s"
| "stringified stringify (Structured v) = stringify v"

text \<open>Modelled from the spec: the \<open>search\<close> operation; \<open>None\<close> for tags stands for no tags given.\<close>

definition search ::
  "(json_value \<Rightarrow> jsstring) \<Rightarrow> jsstring \<Rightarrow> jsstring list option \<Rightarrow> memory_manager
     \<Rightarrow> memory_entry list" where
  "search stringify query tgs m =
     (if query = [] then []
      else filter
             (\<lambda>e. str_includes (toLowerCase (stringified stringify (content e))) (toLowerCase query)
                  \<and> (case tgs of None \<Rightarrow> True | Some ts \<Rightarrow> list_ex (\<lambda>t. t \<in> set (tags e)) ts))
             (allEntries m))"

text \<open>
  Modelled from the spec: \<open>getContext(mode)\<close>. "Selects entries whose tags contain
  mode, sorts by timestamp descending, takes the first 10, and produces for each a
  {type, summary} pair where summary is the stringified content truncated to 200
  characters with an ellipsis suffix when truncated. Returns [] on no match."
\<close>

definition summary :: "(json_value \<Rightarrow> jsstring) \<Rightarrow> memory_entry \<Rightarrow> jsstring" where
  "summary stringify e =
     (let s = stringified stringify (content e)
      in if length s > 200 then take 200 s @ js ''...'' else s)"

text \<open>Modelled from the spec: the \<open>getContext\<close> operation.\<close>

definition getContext ::
  "(json_value \<Rightarrow> jsstring) \<Rightarrow> jsstring \<Rightarrow> memory_manager \<Rightarrow> (entry_type \<times> jsstring) list" where
  "getContext stringify wanted m =
     map (\<lambda>e. (entryType e, summary stringify e))
       (take 10 (sort_key (\<lambda>e. - timestamp e) (filter (\<lambda>e. wanted \<in> set (tags e)) (allEntries m))))"

subsection \<open>Context summaries\<close>

lemma sorted_neg_rev:
  "sorted (map (\<lambda>e. - timestamp e) es) \<Longrightarrow> sorted (rev (map timestamp es))"
  by (induction es) (auto simp: sorted_append)

lemma summary_short:
  "length (stringified stringify (content e)) \<le> 200 \<Longrightarrow>
   summary stringify e = stringified stringify (content e)"
  by (simp add: summary_def)

lemma summary_long:
  assumes "length (stringified stringify (content e)) > 200"
  shows "summary stringify e = take 200 (stringified stringify (content e)) @ js ''...''"
    and "length (summary stringify e) = 203"
    and "suffix (js ''...'') (summary stringify e)"
proof -
  show a: "summary stringify e = take 200 (stringified stringify (content e)) @ js ''...''"
    using assms by (simp add: summary_def)
  show "length (summary stringify e) = 203" unfolding a using assms by simp
  show "suffix (js ''...'') (summary stringify e)" unfolding a by (rule suffix_appendI) simp
qed

lemma summary_length: "length (summary stringify e) \<le> 203"
proof (cases "length (stringified stringify (content e)) > 200")
  case True
  then show ?thesis by (simp add: summary_long(2))
next
  case False
  then show ?thesis by (simp add: summary_short)
qed

text \<open>
  C7. getContext(mode) returns at most 10 {type, summary} pairs. They are made, in
  order, from the first 10 of the entries whose tags contain the mode when these are
  put in descending order of timestamp. Each summary is the stringified content when
  that has at most 200 characters, and otherwise its first 200 characters followed by
  \<open>...\<close>: it has at most 203 characters, and exactly 203 and the suffix \<open>...\<close> when it
  was truncated. When no entry matches, the result is the empty list.
\<close>

theorem getContext_summaries:
  "length (getContext stringify wanted m) \<le> 10
   \<and> (\<exists>es rest.
         getContext stringify wanted m = map (\<lambda>e. (entryType e, summary stringify e)) es
         \<and> length es = min 10 (length (es @ rest))
         \<and> mset (es @ rest) = mset (filter (\<lambda>e. wanted \<in> set (tags e)) (allEntries m))
         \<and> sorted (rev (map timestamp (es @ rest))))
   \<and> length (summary stringify e) \<le> 203
   \<and> (length (stringified stringify (content e)) \<le> 200 \<longrightarrow>
         summary stringify e = stringified stringify (content e))
   \<and> (length (stringified stringify (content e)) > 200 \<longrightarrow>
         summary stringify e = take 200 (stringified stringify (content e)) @ js ''...''
         \<and> length (summary stringify e) = 203
         \<and> suffix (js ''...'') (summary stringify e))
   \<and> ((\<forall>x \<in> set (allEntries m). wanted \<notin> set (tags x)) \<longrightarrow>
         getContext stringify wanted m = [])"
proof (intro conjI impI)
  let ?matching = "filter (\<lambda>e. wanted \<in> set (tags e)) (allEntries m)"
  let ?sorted = "sort_key (\<lambda>e. - timestamp e) ?matching"
  show "length (getContext stringify wanted m) \<le> 10"
    by (simp add: getContext_def)
  have 1: "getContext stringify wanted m
             = map (\<lambda>e. (entryType e, summary stringify e)) (take 10 ?sorted)"
    by (simp add: getContext_def)
  have 2: "length (take 10 ?sorted) = min 10 (length (take 10 ?sorted @ drop 10 ?sorted))"
    by simp
  have 3: "mset (take 10 ?sorted @ drop 10 ?sorted) = mset ?matching"
    by simp
  have "sorted (map (\<lambda>e. - timestamp e) ?sorted)" by (rule sorted_sort_key)
  then have 4: "sorted (rev (map timestamp (take 10 ?sorted @ drop 10 ?sorted)))"
    by (simp add: sorted_neg_rev)
  from 1 2 3 4
  show "\<exists>es rest.
         getContext stringify wanted m = map (\<lambda>e. (entryType e, summary stringify e)) es
         \<and> length es = min 10 (length (es @ rest))
         \<and> mset (es @ rest) = mset ?matching
         \<and> sorted (rev (map timestamp (es @ rest)))"
    by blast
  show "length (summary stringify e) \<le> 203" by (rule summary_length)
next
  assume "length (stringified stringify (content e)) \<le> 200"
  then show "summary stringify e = stringified stringify (content e)" by (rule summary_short)
next
  assume h: "200 < length (stringified stringify (content e))"
  show "summary stringify e = take 200 (stringified stringify (content e)) @ js ''...''"
    by (rule summary_long(1) [OF h])
  show "length (summary stringify e) = 203" by (rule summary_long(2) [OF h])
  show "suffix (js ''...'') (summary stringify e)" by (rule summary_long(3) [OF h])
next
  assume "\<forall>x \<in> set (allEntries m). wanted \<notin> set (tags x)"
  then have "filter (\<lambda>e. wanted \<in> set (tags e)) (allEntries m) = []"
    by (simp add: filter_empty_conv)
  then show "getContext stringify wanted m = []" by (simp add: getContext_def)
qed

subsection \<open>Store, flush, load again\<close>

lemma str_includes_self: "str_includes s s"
  by (cases s) simp_all

lemma restore_persist:
  "0 \<le> timestamp e \<Longrightarrow> isoYear (timestamp e) < 10000 \<Longrightarrow> restore (persist e) = Some e"
  by (simp add: restore_def persist_def isoYear_def parseDate_toISOString)

lemma store_first:
  assumes "memory m = []" and "softMaxEntries m = 1000" and "maxAgeMs m = 7 * 86400000"
  shows "memory (store now freshId agent ty c tgs m)
           = [(agent, [\<lparr>entryId = freshId, agentId = agent, timestamp = now, entryType = ty,
                         content = c, tags = tgs\<rparr>])]"
  using assms by (simp add: store_def allEntries_def Let_def)

text \<open>
  C6 (amended). Let the store start on a path that has no file yet. After the store of
  an entry whose content is a non-empty text, at a time in the years 1970 to 9999, and
  a flush that succeeds, a fresh store initialized from the same path answers the search
  for that text with exactly one entry, the entry stored: same id, agent, type, content
  and tags, and the same timestamp, which the file held as an ISO-8601 string.
\<close>

theorem memory_round_trip:
  assumes "0 \<le> now" and "isoYear now < 10000"
      and "s \<noteq> []"
      and "d path = None"
      and "m1 = store now freshId agent ty (Text s) tgs (initialize d (newMemoryManager path))"
      and "m2 = initialize (flush True m1 d) (newMemoryManager path)"
  shows "search stringify s None m2
           = [\<lparr>entryId = freshId, agentId = agent, timestamp = now, entryType = ty,
                content = Text s, tags = tgs\<rparr>]
         \<and> (\<exists>p. flush True m1 d path = Some (Document [(agent, [p])])
                \<and> p_timestamp p = toISOString now)"
proof -
  let ?e = "\<lparr>entryId = freshId, agentId = agent, timestamp = now, entryType = ty,
             content = Text s, tags = tgs\<rparr>"
  let ?m0 = "initialize d (newMemoryManager path)"
  have m0: "memory ?m0 = []" "softMaxEntries ?m0 = 1000" "maxAgeMs ?m0 = 7 * 86400000"
    "memoryPath ?m0 = path"
    using assms(4) by (simp_all add: initialize_def newMemoryManager_def)
  have mem1: "memory m1 = [(agent, [?e])]"
    unfolding assms(5) by (rule store_first [OF m0(1-3)])
  have path1: "memoryPath m1 = path"
    unfolding assms(5) using m0
    by (simp add: store_def cleanupMemory_def Let_def)
  have written: "flush True m1 d path = Some (Document [(agent, [persist ?e])])"
    by (simp add: flush_def mem1 path1)
  have again: "restore (persist ?e) = Some ?e"
    by (rule restore_persist) (simp_all add: assms(1,2))
  have "load [(agent, [persist ?e])] = Some [(agent, [?e])]"
    by (simp add: load_def again)
  then have mem2: "memory m2 = [(agent, [?e])]"
    unfolding assms(6) by (simp add: initialize_def newMemoryManager_def written)
  then have "allEntries m2 = [?e]" by (simp add: allEntries_def)
  then have a: "search stringify s None m2 = [?e]"
    using assms(3) by (simp add: search_def str_includes_self)
  have "p_timestamp (persist ?e) = toISOString now" by (simp add: persist_def)
  with written a show ?thesis by blast
qed

subsection \<open>The scenarios of the spec\<close>

definition no_files :: disk where
  "no_files = (\<lambda>p. None)"

definition flat :: "json_value \<Rightarrow> jsstring" where
  "flat v = js ''{}''"

definition stored :: "jsstring \<Rightarrow> memory_manager" where
  "stored text =
     store 1700000000000 (js ''m1'') (js ''A1'') Result (Text text) [js ''test'']
       (initialize no_files (newMemoryManager (js ''memory.json'')))"

definition round_trip :: "jsstring \<Rightarrow> memory_manager" where
  "round_trip text =
     initialize (flush True (stored text) no_files) (newMemoryManager (js ''memory.json''))"

theorem memory_round_trip_witness:
  "search flat (js ''Persistent data'') None (round_trip (js ''Persistent data''))
     = [\<lparr>entryId = js ''m1'', agentId = js ''A1'', timestamp = 1700000000000,
          entryType = Result, content = Text (js ''Persistent data''), tags = [js ''test'']\<rparr>]
   \<and> toISOString 1700000000000 = js ''2023-11-14T22:13:20.000Z''"
proof -
  have c: "(0::int) \<le> 1700000000000" "isoYear 1700000000000 < 10000"
    by (simp_all add: isoYear_example)
  have n: "js ''Persistent data'' \<noteq> []" by simp
  have d: "no_files (js ''memory.json'') = None" by (simp add: no_files_def)
  from memory_round_trip [where d = no_files and stringify = flat, OF c n d refl refl]
  show ?thesis
    unfolding round_trip_def stored_def by (simp add: toISOString_example)
qed

theorem memory_round_trip_counterexample:
  "search flat [] None (round_trip []) = []
   \<and> allEntries (round_trip [])
        = [\<lparr>entryId = js ''m1'', agentId = js ''A1'', timestamp = 1700000000000,
             entryType = Result, content = Text [], tags = [js ''test'']\<rparr>]"
proof -
  let ?e = "\<lparr>entryId = js ''m1'', agentId = js ''A1'', timestamp = 1700000000000,
             entryType = Result, content = Text [], tags = [js ''test'']\<rparr>"
  have m1: "memory (stored []) = [(js ''A1'', [?e])]"
    unfolding stored_def
    by (rule store_first) (simp_all add: initialize_def newMemoryManager_def no_files_def)
  have p1: "memoryPath (stored []) = js ''memory.json''"
    by (simp add: stored_def store_def cleanupMemory_def initialize_def newMemoryManager_def
        no_files_def Let_def)
  have "restore (persist ?e) = Some ?e"
    by (rule restore_persist) (simp_all add: isoYear_example)
  then have "load [(js ''A1'', [persist ?e])] = Some [(js ''A1'', [?e])]"
    by (simp add: load_def)
  then have "memory (round_trip []) = [(js ''A1'', [?e])]"
    by (simp add: round_trip_def initialize_def flush_def m1 p1 newMemoryManager_def)
  then have "allEntries (round_trip []) = [?e]" by (simp add: allEntries_def)
  then show ?thesis by (simp add: search_def)
qed

definition long_entry :: memory_entry where
  "long_entry =
     \<lparr>entryId = js ''m1'', agentId = js ''A1'', timestamp = 1700000000000,
      entryType = Result, content = Text (replicate 300 65), tags = [js ''coder'']\<rparr>"

theorem getContext_summaries_witness:
  "getContext flat (js ''coder'')
       (store 1700000000000 (js ''m1'') (js ''A1'') Result (Text (replicate 300 65)) [js ''coder'']
          (newMemoryManager (js ''memory.json'')))
     = [(Result, replicate 200 65 @ js ''...'')]
   \<and> length (summary flat long_entry) = 203
   \<and> suffix (js ''...'') (summary flat long_entry)
   \<and> getContext flat (js ''tester'')
       (store 1700000000000 (js ''m1'') (js ''A1'') Result (Text (replicate 300 65)) [js ''coder'']
          (newMemoryManager (js ''memory.json'')))
     = []"
proof -
  let ?m = "store 1700000000000 (js ''m1'') (js ''A1'') Result (Text (replicate 300 65))
              [js ''coder''] (newMemoryManager (js ''memory.json''))"
  have mem: "memory ?m = [(js ''A1'', [long_entry])]"
    unfolding long_entry_def by (rule store_first) (simp_all add: newMemoryManager_def)
  then have all: "allEntries ?m = [long_entry]" by (simp add: allEntries_def)
  have l: "200 < length (stringified flat (content long_entry))"
    by (simp add: long_entry_def)
  have a: "getContext flat (js ''coder'') ?m = [(Result, replicate 200 65 @ js ''...'')]"
    unfolding getContext_def all by (simp add: long_entry_def summary_def)
  have none: "\<forall>x \<in> set (allEntries ?m). js ''tester'' \<notin> set (tags x)"
    unfolding all by (simp add: long_entry_def)
  from getContext_summaries [of flat "js ''coder''" ?m long_entry] l
  have b: "length (summary flat long_entry) = 203" "suffix (js ''...'') (summary flat long_entry)"
    by blast+
  from getContext_summaries [of flat "js ''tester''" ?m long_entry] none
  have c: "getContext flat (js ''tester'') ?m = []" by blast
  from a b c show ?thesis by blast
qed


end
